theory Spec2Isabelle
  imports Main
begin

section \<open>Audio capture: the windowing buffer and the bounded chunk queue (audio.py)\<close>

text \<open>
  Samples are the elements of a list; their type is left open, since the recorder only
  concatenates and slices. A block handed to the callback is the flattened mono block
  (the stream is opened with one channel, so the number of frames is the number of
  samples).
\<close>

subsection \<open>Python slicing\<close>

text \<open>\<^verbatim>\<open>xs[-n:]\<close> for an integer \<open>n\<close>: the last \<open>n\<close> elements when \<open>n\<close> is positive, the whole
  list when \<open>n = 0\<close>, and \<^verbatim>\<open>xs[k:]\<close> when \<open>n = -k\<close> is negative.\<close>

definition py_suffix :: "int \<Rightarrow> 'a list \<Rightarrow> 'a list" where
  "py_suffix n xs = (if 0 < n then drop (length xs - nat n) xs else drop (nat (- n)) xs)"

subsection \<open>queue.Queue(maxsize=10)\<close>

datatype queue_error = Full | Empty

definition audio_queue_maxsize :: nat where
  "audio_queue_maxsize = 10"

definition put_nowait :: "'a list \<Rightarrow> 'a \<Rightarrow> queue_error + 'a list" where
  "put_nowait q x =
     (if 0 < audio_queue_maxsize \<and> audio_queue_maxsize \<le> length q then Inl Full
      else Inr (q @ [x]))"

definition get_nowait :: "'a list \<Rightarrow> queue_error + ('a \<times> 'a list)" where
  "get_nowait q = (case q of [] \<Rightarrow> Inl Empty | x # xs \<Rightarrow> Inr (x, xs))"

text \<open>The blocking \<^verbatim>\<open>put\<close> of \<^verbatim>\<open>stop\<close>: with no consumer running it waits for ever on a
  full queue, which is the value \<open>None\<close>.\<close>

definition put_blocking :: "'a list \<Rightarrow> 'a \<Rightarrow> 'a list option" where
  "put_blocking q x =
     (if 0 < audio_queue_maxsize \<and> audio_queue_maxsize \<le> length q then None
      else Some (q @ [x]))"

text \<open>Lines 84--91 of the callback: try to insert; on \<^verbatim>\<open>queue.Full\<close> discard the oldest
  item and insert again. \<^verbatim>\<open>queue.Empty\<close> from the discard is swallowed (the chunk is then
  not queued); a second \<^verbatim>\<open>queue.Full\<close> is not caught and leaves the callback.\<close>

definition enqueue_chunk :: "'a list \<Rightarrow> 'a \<Rightarrow> queue_error + 'a list" where
  "enqueue_chunk q chunk =
     (case put_nowait q chunk of
        Inr q' \<Rightarrow> Inr q'
      | Inl _ \<Rightarrow>
          (case get_nowait q of
             Inl _ \<Rightarrow> Inr q
           | Inr (_, q1) \<Rightarrow> put_nowait q1 chunk))"

subsection \<open>AudioRecorder\<close>

record 'a recorder =
  step_samples :: int
  window_samples :: int
  audio_queue :: "'a list list"
  buffer :: "'a list list"
  buffer_samples :: nat
  keep_buffer :: "'a list option"
  is_paused :: bool

definition init_recorder :: "int \<Rightarrow> int \<Rightarrow> 'a recorder" where
  "init_recorder step window =
     \<lparr> step_samples = step, window_samples = window, audio_queue = [], buffer = [],
       buffer_samples = 0, keep_buffer = None, is_paused = False \<rparr>"

text \<open>The window built from the retained tail and the newly accumulated samples, cut to
  the last \<open>window_samples\<close> samples.\<close>

definition build_chunk :: "int \<Rightarrow> 'a list option \<Rightarrow> 'a list \<Rightarrow> 'a list" where
  "build_chunk window keep new_audio =
     (let chunk = (case keep of Some k \<Rightarrow> k @ new_audio | None \<Rightarrow> new_audio)
      in if window < int (length chunk) then py_suffix window chunk else chunk)"

text \<open>The tail retained for the next window.\<close>

definition keep_tail :: "int \<Rightarrow> int \<Rightarrow> 'a list \<Rightarrow> 'a list" where
  "keep_tail window step chunk =
     (let keep_samples = window - step
      in if keep_samples < int (length chunk) then py_suffix keep_samples chunk else chunk)"

text \<open>One call of \<^verbatim>\<open>_audio_callback\<close>. The result is the new recorder, the window handed
  to the queue and to the listener (if one was built), and the exception that left the
  callback (if any).\<close>

definition audio_callback ::
  "'a recorder \<Rightarrow> 'a list \<Rightarrow> 'a recorder \<times> 'a list option \<times> queue_error option" where
  "audio_callback r indata =
     (if is_paused r then (r, None, None)
      else
        let r1 = r\<lparr> buffer := buffer r @ [indata],
                    buffer_samples := buffer_samples r + length indata \<rparr>
        in if step_samples r1 \<le> int (buffer_samples r1) then
             let new_audio = concat (buffer r1);
                 chunk = build_chunk (window_samples r1) (keep_buffer r1) new_audio;
                 r2 = r1\<lparr> keep_buffer :=
                              Some (keep_tail (window_samples r1) (step_samples r1) chunk),
                            buffer := [], buffer_samples := 0 \<rparr>
             in (case enqueue_chunk (audio_queue r2) chunk of
                   Inl e \<Rightarrow> (r2, None, Some e)
                 | Inr q \<Rightarrow> (r2\<lparr> audio_queue := q \<rparr>, Some chunk, None))
           else (r1, None, None))"

text \<open>The flush of \<^verbatim>\<open>stop\<close>: the samples still in the buffer become one last window,
  inserted with the blocking \<^verbatim>\<open>put\<close>. \<open>None\<close>: the call waits on a full queue.\<close>

definition stop :: "'a recorder \<Rightarrow> ('a recorder \<times> 'a list option) option" where
  "stop r =
     (if buffer r \<noteq> [] then
        (let chunk = concat (buffer r)
         in case put_blocking (audio_queue r) chunk of
              None \<Rightarrow> None
            | Some q \<Rightarrow> Some (r\<lparr> audio_queue := q, buffer := [], buffer_samples := 0 \<rparr>,
                             Some chunk))
      else Some (r, None))"

text \<open>What happens to a recorder between \<^verbatim>\<open>start\<close> and \<^verbatim>\<open>stop\<close>: the stream delivers a
  block of samples to the callback, or the session is paused or resumed.\<close>

datatype 'a event = Samples "'a list" | Pause | Resume

definition pause :: "'a recorder \<Rightarrow> 'a recorder" where
  "pause r = r\<lparr> is_paused := True \<rparr>"

definition resume :: "'a recorder \<Rightarrow> 'a recorder" where
  "resume r = r\<lparr> is_paused := False \<rparr>"

text \<open>Running a sequence of events: the final recorder and, for every window built, the
  newly accumulated samples it was built from (\<^verbatim>\<open>new_audio\<close>) together with the window
  itself, in order of emission. The run ends at an exception leaving the callback.\<close>

fun feed :: "'a recorder \<Rightarrow> 'a event list \<Rightarrow> 'a recorder \<times> ('a list \<times> 'a list) list" where
  "feed r [] = (r, [])"
| "feed r (Pause # evs) = feed (pause r) evs"
| "feed r (Resume # evs) = feed (resume r) evs"
| "feed r (Samples b # evs) =
     (case audio_callback r b of
        (r', _, Some e) \<Rightarrow> (r', [])
      | (r', None, None) \<Rightarrow> feed r' evs
      | (r', Some w, None) \<Rightarrow>
          (let (r'', ems) = feed r' evs in (r'', (concat (buffer r @ [b]), w) # ems)))"

definition windows :: "('a list \<times> 'a list) list \<Rightarrow> 'a list list" where
  "windows ems = map snd ems"

text \<open>How consecutive windows hang together: each is built from the tail retained of
  its predecessor and its own new samples.\<close>

fun linked :: "int \<Rightarrow> int \<Rightarrow> 'a list option \<Rightarrow> ('a list \<times> 'a list) list \<Rightarrow> bool" where
  "linked W S k [] = True"
| "linked W S k ((n, w) # ems) =
     (w = build_chunk W k n \<and> S \<le> int (length n) \<and> linked W S (Some (keep_tail W S w)) ems)"

text \<open>What holds of a recorder between two calls: the sample count is the size of the
  buffer, a non-empty buffer is below the step, and the queue is within its capacity.\<close>

definition recorder_inv :: "int \<Rightarrow> int \<Rightarrow> 'a recorder \<Rightarrow> bool" where
  "recorder_inv W S r \<longleftrightarrow>
     window_samples r = W \<and> step_samples r = S
     \<and> length (audio_queue r) \<le> audio_queue_maxsize
     \<and> buffer_samples r = length (concat (buffer r))
     \<and> (buffer r \<noteq> [] \<longrightarrow> int (buffer_samples r) < S)"

text \<open>The number of samples of the previous window \<open>w\<close> that open the next window, built
  from \<open>n\<close> new samples: what the retained tail holds, less what the cut to
  \<open>window_samples\<close> removes from its front.\<close>

definition overlap :: "int \<Rightarrow> int \<Rightarrow> 'a list \<Rightarrow> 'a list \<Rightarrow> nat" where
  "overlap W S w n = min (min (nat (W - S)) (length w)) (nat W - length n)"

section \<open>Python strings and the built-ins the transcript code calls\<close>

text \<open>
  A Python \<^verbatim>\<open>str\<close> is a sequence of Unicode code points and \<^verbatim>\<open>len\<close> counts code points,
  so a string is a list of natural numbers here. \<open>ascii\<close> embeds a literal.
\<close>

type_synonym ustr = "nat list"

definition ascii :: "string \<Rightarrow> ustr" where
  "ascii s = map of_char s"

text \<open>\<^verbatim>\<open>sep.join(xs)\<close>\<close>

fun join :: "ustr \<Rightarrow> ustr list \<Rightarrow> ustr" where
  "join sep [] = []"
| "join sep [x] = x"
| "join sep (x # y # ys) = x @ sep @ join sep (y # ys)"

text \<open>\<^verbatim>\<open>str(n)\<close> for a natural number: its decimal digits.\<close>

fun str_nat :: "nat \<Rightarrow> ustr" where
  "str_nat n = (if n < 10 then [48 + n] else str_nat (n div 10) @ [48 + n mod 10])"

declare str_nat.simps [simp del]

text \<open>The code points \<^verbatim>\<open>str.strip()\<close> removes (\<^verbatim>\<open>str.isspace\<close>).\<close>

definition py_isspace :: "nat \<Rightarrow> bool" where
  "py_isspace c \<longleftrightarrow>
     (9 \<le> c \<and> c \<le> 13) \<or> (28 \<le> c \<and> c \<le> 32) \<or> c = 133 \<or> c = 160 \<or> c = 5760
     \<or> (8192 \<le> c \<and> c \<le> 8202) \<or> c = 8232 \<or> c = 8233 \<or> c = 8239 \<or> c = 8287
     \<or> c = 12288"

definition strip :: "ustr \<Rightarrow> ustr" where
  "strip s = rev (dropWhile py_isspace (rev (dropWhile py_isspace s)))"

text \<open>\<^verbatim>\<open>s.replace(' ', '')\<close>\<close>

definition remove_spaces :: "ustr \<Rightarrow> ustr" where
  "remove_spaces s = filter (\<lambda>c. c \<noteq> 32) s"

text \<open>\<^verbatim>\<open>s.split(',')\<close>: the fields between the separators, empty fields included.\<close>

fun split_on :: "nat \<Rightarrow> ustr \<Rightarrow> ustr list" where
  "split_on sep [] = [[]]"
| "split_on sep (c # cs) =
     (if c = sep then [] # split_on sep cs
      else (case split_on sep cs of [] \<Rightarrow> [[c]] | p # ps \<Rightarrow> (c # p) # ps))"

subsection \<open>int(str)\<close>

text \<open>
  What \<^verbatim>\<open>int\<close> reads from a string depends on two things outside the repository: the
  Unicode table of decimal digits and the interpreter's limit on the number of digits
  (\<^verbatim>\<open>sys.int_max_str_digits\<close>, 4300 by default, 0 for no limit; it is looked at only
  for more than 640 digits). Both are parameters.
\<close>

record interp =
  uni_decimal :: "nat \<Rightarrow> nat option"
  max_str_digits :: nat

text \<open>A string with a code point above 127 is first rewritten to ASCII: code points
  below 127 stay, a space becomes a blank, a decimal digit its ASCII digit; anything
  else makes the string invalid.\<close>

fun to_ascii :: "interp \<Rightarrow> ustr \<Rightarrow> ustr option" where
  "to_ascii ip [] = Some []"
| "to_ascii ip (c # cs) =
     (if c < 127 then map_option ((#) c) (to_ascii ip cs)
      else if py_isspace c then map_option ((#) 32) (to_ascii ip cs)
      else (case uni_decimal ip c of
              None \<Rightarrow> None
            | Some d \<Rightarrow> map_option ((#) (48 + d)) (to_ascii ip cs)))"

definition ascii_space :: "nat \<Rightarrow> bool" where
  "ascii_space c \<longleftrightarrow> (9 \<le> c \<and> c \<le> 13) \<or> c = 32"

definition is_digit :: "nat \<Rightarrow> bool" where
  "is_digit c \<longleftrightarrow> 48 \<le> c \<and> c \<le> 57"

text \<open>No two underscores in a row.\<close>

fun single_underscores :: "ustr \<Rightarrow> bool" where
  "single_underscores (a # b # cs) = (\<not> (a = 95 \<and> b = 95) \<and> single_underscores (b # cs))"
| "single_underscores _ = True"

definition digits_value :: "ustr \<Rightarrow> int" where
  "digits_value ds = foldl (\<lambda>v c. 10 * v + int (c - 48)) 0 ds"

text \<open>The ASCII syntax: blanks, an optional sign, digits with single underscores between
  them, blanks. \<open>None\<close> is \<^verbatim>\<open>ValueError\<close>.\<close>

definition parse_ascii_int :: "interp \<Rightarrow> ustr \<Rightarrow> int option" where
  "parse_ascii_int ip s =
     (let s1 = dropWhile ascii_space s;
          (neg, s2) = (case s1 of
                         c # cs \<Rightarrow> if c = 43 then (False, cs) else if c = 45 then (True, cs)
                                   else (False, s1)
                       | [] \<Rightarrow> (False, s1));
          body = takeWhile (\<lambda>c. is_digit c \<or> c = 95) s2;
          rest = dropWhile (\<lambda>c. is_digit c \<or> c = 95) s2;
          ds = filter is_digit body
      in if body = [] \<or> hd body = 95 \<or> last body = 95 \<or> \<not> single_underscores body then None
         else if 640 < length ds \<and> 0 < max_str_digits ip \<and> max_str_digits ip < length ds
         then None
         else if dropWhile ascii_space rest \<noteq> [] then None
         else Some (if neg then - digits_value ds else digits_value ds))"

definition py_int :: "interp \<Rightarrow> ustr \<Rightarrow> int option" where
  "py_int ip s =
     (if \<forall>c \<in> set s. c < 128 then parse_ascii_int ip s
      else (case to_ascii ip s of None \<Rightarrow> None | Some a \<Rightarrow> parse_ascii_int ip a))"

section \<open>Transcript entries and the chunk splitter (config.py, chunking.py)\<close>

subsection \<open>TranscriptEntry\<close>

text \<open>Of the time stamp only hour, minute and second are read (\<^verbatim>\<open>strftime("%H:%M:%S")\<close>).\<close>

record datetime =
  hour :: nat
  minute :: nat
  second :: nat

record transcript_entry =
  timestamp :: datetime
  entry_text :: ustr
  index :: int

definition two_digits :: "nat \<Rightarrow> ustr" where
  "two_digits n = [48 + n div 10 mod 10, 48 + n mod 10]"

definition strftime_HMS :: "datetime \<Rightarrow> ustr" where
  "strftime_HMS t = two_digits (hour t) @ [58] @ two_digits (minute t) @ [58] @ two_digits (second t)"

text \<open>\<^verbatim>\<open>TranscriptEntry.__str__\<close>\<close>

definition entry_str :: "transcript_entry \<Rightarrow> ustr" where
  "entry_str e = ascii ''['' @ strftime_HMS (timestamp e) @ ascii ''] '' @ entry_text e"

subsection \<open>The text generator\<close>

text \<open>
  \<^verbatim>\<open>Backend.generate(prompt)\<close> returns a text or raises. Its answer may depend on
  everything it was asked before, so a backend is a function of the earlier prompts and
  the new one; \<open>Inl\<close> carries the message of the exception. The list of prompts sent so
  far is threaded through every operation that may call the backend. The environment
  also says for which paths writing a file raises, and with what message.
\<close>

record env = interp +
  backend :: "ustr list \<Rightarrow> ustr \<Rightarrow> ustr + ustr"
  write_error :: "ustr \<Rightarrow> ustr option"

definition generate :: "'a env_scheme \<Rightarrow> ustr list \<Rightarrow> ustr \<Rightarrow> (ustr + ustr) \<times> ustr list" where
  "generate en log prompt = (backend en log prompt, log @ [prompt])"

subsection \<open>Constants\<close>

definition CHUNK_THRESHOLD :: nat where
  "CHUNK_THRESHOLD = 20000"

definition BOUNDARY_DETECTION_MAX :: nat where
  "BOUNDARY_DETECTION_MAX = 30000"

text \<open>\<^verbatim>\<open>BOUNDARY_DETECTION_PROMPT\<close>, before and after the \<^verbatim>\<open>{transcript}\<close> field.\<close>

definition BOUNDARY_DETECTION_PROMPT_head :: ustr where
  "BOUNDARY_DETECTION_PROMPT_head =
     [20197, 19979, 12398, 20250, 35696, 12398, 25991, 23383, 36215, 12371, 12375, 12434,
      35501, 12435, 12391, 12289, 35441, 38988, 12364, 22793, 12431, 12427, 21306, 20999,
      12426, 20301, 32622, 12434, 29305, 23450, 12375, 12390, 12367, 12384, 12373, 12356,
      12290, 10, 10, 12304, 25991, 23383, 36215, 12371, 12375, 12305, 10]"

definition BOUNDARY_DETECTION_PROMPT_tail :: ustr where
  "BOUNDARY_DETECTION_PROMPT_tail =
     [10, 10, 12304, 25351, 31034, 12305, 10, 45, 32, 35441, 38988, 12420, 35696, 35542,
      12486, 12540, 12510, 12364, 26126, 30906, 12395, 22793, 12431, 12427, 31623, 25152,
      12434, 35211, 12388, 12369, 12390, 12367, 12384, 12373, 12356, 10, 45, 32, 21306,
      20999, 12426, 20301, 32622, 12399, 30330, 35328, 12398, 12452, 12531, 12487, 12483,
      12463, 12473, 30058, 21495, 65288, 91, 72, 72, 58, 77, 77, 58, 83, 83, 93, 12398,
      21069, 12398, 30058, 21495, 65289, 12391, 25351, 23450, 12375, 12390, 12367, 12384,
      12373, 12356, 10, 45, 32, 21306, 20999, 12426, 12364, 12394, 12356, 22580, 21512,
      12399, 12300, 12394, 12375, 12301, 12392, 22238, 31572, 12375, 12390, 12367, 12384,
      12373, 12356, 10, 45, 32, 35079, 25968, 12354, 12427, 22580, 21512, 12399, 12459,
      12531, 12510, 21306, 20999, 12426, 12391, 22238, 31572, 12375, 12390, 12367, 12384,
      12373, 12356, 10, 10, 12304, 20986, 21147, 24418, 24335, 12305, 10, 21306, 20999,
      12426, 20301, 32622, 12398, 12452, 12531, 12487, 12483, 12463, 12473, 30058, 21495,
      12398, 12415, 12434, 20986, 21147, 12375, 12390, 12367, 12384, 12373, 12356, 12290,
      20363, 58, 32, 53, 44, 49, 50, 44, 50, 51, 10, 21306, 20999, 12426, 12364, 12394,
      12356, 22580, 21512, 58, 32, 12394, 12375, 10]"

definition BOUNDARY_DETECTION_PROMPT_format :: "ustr \<Rightarrow> ustr" where
  "BOUNDARY_DETECTION_PROMPT_format transcript =
     BOUNDARY_DETECTION_PROMPT_head @ transcript @ BOUNDARY_DETECTION_PROMPT_tail"

text \<open>The reply \<^verbatim>\<open>'\<close>nashi\<^verbatim>\<open>'\<close> (U+306A U+3057, "none").\<close>

definition nashi :: ustr where
  "nashi = [12394, 12375]"

subsection \<open>Chunk\<close>

record chunk =
  entries :: "transcript_entry list"
  start_index :: int
  end_index :: int

definition whole_chunk :: "transcript_entry list \<Rightarrow> chunk" where
  "whole_chunk transcripts =
     \<lparr> entries = transcripts, start_index = 0, end_index = int (length transcripts) - 1 \<rparr>"

subsection \<open>ChunkSplitter: parsing the reply\<close>

text \<open>The loop over the comma-separated parts: a part that \<^verbatim>\<open>int\<close> rejects is skipped, a
  number outside the open interval is skipped.\<close>

fun collect_boundaries :: "interp \<Rightarrow> int \<Rightarrow> int \<Rightarrow> ustr list \<Rightarrow> int list \<Rightarrow> int list" where
  "collect_boundaries ip min_idx max_idx [] boundaries = boundaries"
| "collect_boundaries ip min_idx max_idx (part # parts) boundaries =
     (case py_int ip part of
        None \<Rightarrow> collect_boundaries ip min_idx max_idx parts boundaries
      | Some idx \<Rightarrow>
          if min_idx < idx \<and> idx < max_idx
          then collect_boundaries ip min_idx max_idx parts (boundaries @ [idx])
          else collect_boundaries ip min_idx max_idx parts boundaries)"

definition parse_boundaries :: "interp \<Rightarrow> ustr \<Rightarrow> int \<Rightarrow> int \<Rightarrow> int list" where
  "parse_boundaries ip result min_idx max_idx =
     (let result = strip result
      in if result = nashi \<or> result = [] then []
         else sort (collect_boundaries ip min_idx max_idx
                      (split_on 44 (remove_spaces result)) []))"

subsection \<open>ChunkSplitter: detecting the boundaries\<close>

text \<open>The inner loop: entries are taken from \<open>window_start\<close> on while the window stays
  within \<open>BOUNDARY_DETECTION_MAX\<close>; the result is the window and its text length.\<close>

fun collect_window ::
  "transcript_entry list \<Rightarrow> transcript_entry list \<Rightarrow> nat
     \<Rightarrow> transcript_entry list \<times> nat" where
  "collect_window [] window_entries window_text_len = (window_entries, window_text_len)"
| "collect_window (e # es) window_entries window_text_len =
     (if BOUNDARY_DETECTION_MAX < window_text_len + length (entry_str e)
      then (window_entries, window_text_len)
      else collect_window es (window_entries @ [e])
             (window_text_len + length (entry_str e) + 1))"

definition window_text :: "nat \<Rightarrow> transcript_entry list \<Rightarrow> ustr" where
  "window_text window_start window_entries =
     join [10] (map (\<lambda>(i, e). str_nat i @ ascii '': '' @ entry_str e)
                  (enumerate window_start window_entries))"

text \<open>One turn of the \<^verbatim>\<open>while\<close> loop from a given \<open>window_start\<close>: \<open>None\<close> when the loop
  is left by \<^verbatim>\<open>break\<close>, otherwise the boundary that is appended and becomes the next
  \<open>window_start\<close>, with the prompts sent so far.\<close>

definition detect_step ::
  "'a env_scheme \<Rightarrow> transcript_entry list \<Rightarrow> nat \<Rightarrow> ustr list \<Rightarrow> (nat \<times> ustr list) option" where
  "detect_step en transcripts window_start log =
     (let (window_entries, window_text_len) = collect_window (drop window_start transcripts) [] 0
      in if window_entries = [] then None
         else if window_text_len < CHUNK_THRESHOLD then None
         else
           let prompt = BOUNDARY_DETECTION_PROMPT_format (window_text window_start window_entries);
               mid_point = window_start + length window_entries div 2
           in (case generate en log prompt of
                 (Inl e, log') \<Rightarrow> Some (mid_point, log')
               | (Inr result, log') \<Rightarrow>
                   (case parse_boundaries (interp.truncate en) result (int window_start)
                           (int (window_start + length window_entries)) of
                      [] \<Rightarrow> Some (mid_point, log')
                    | first_boundary # _ \<Rightarrow> Some (nat first_boundary, log'))))"

text \<open>The \<^verbatim>\<open>while\<close> loop. It need not end, so its result is an option: \<open>None\<close> when the
  loop runs for ever.\<close>

partial_function (option) detect_loop ::
  "'a env_scheme \<Rightarrow> transcript_entry list \<Rightarrow> nat \<Rightarrow> nat list \<Rightarrow> ustr list
     \<Rightarrow> (nat list \<times> ustr list) option" where
  "detect_loop en transcripts window_start boundaries log =
     (if window_start < length transcripts then
        (case detect_step en transcripts window_start log of
           None \<Rightarrow> Some (boundaries, log)
         | Some (b, log') \<Rightarrow> detect_loop en transcripts b (boundaries @ [b]) log')
      else Some (boundaries, log))"

definition detect_boundaries ::
  "'a env_scheme \<Rightarrow> transcript_entry list \<Rightarrow> ustr list \<Rightarrow> (nat list \<times> ustr list) option" where
  "detect_boundaries en transcripts log = detect_loop en transcripts 0 [] log"

subsection \<open>ChunkSplitter.split\<close>

text \<open>The loop over the boundaries: a boundary beyond \<open>start_idx\<close> closes a chunk.\<close>

fun cut_chunks ::
  "transcript_entry list \<Rightarrow> nat list \<Rightarrow> nat \<Rightarrow> chunk list \<Rightarrow> chunk list \<times> nat" where
  "cut_chunks transcripts [] start_idx chunks = (chunks, start_idx)"
| "cut_chunks transcripts (boundary_idx # bs) start_idx chunks =
     (if start_idx < boundary_idx
      then cut_chunks transcripts bs boundary_idx
             (chunks @ [\<lparr> entries = take (boundary_idx - start_idx) (drop start_idx transcripts),
                          start_index = int start_idx,
                          end_index = int boundary_idx - 1 \<rparr>])
      else cut_chunks transcripts bs start_idx chunks)"

definition split ::
  "'a env_scheme \<Rightarrow> transcript_entry list \<Rightarrow> ustr list \<Rightarrow> (chunk list \<times> ustr list) option" where
  "split en transcripts log =
     (if transcripts = [] then Some ([], log)
      else if length (join [10] (map entry_str transcripts)) \<le> CHUNK_THRESHOLD
      then Some ([whole_chunk transcripts], log)
      else
        (case detect_boundaries en transcripts log of
           None \<Rightarrow> None
         | Some (boundaries, log') \<Rightarrow>
             let (chunks, start_idx) = cut_chunks transcripts boundaries 0 [];
                 chunks = (if start_idx < length transcripts
                           then chunks @ [\<lparr> entries = drop start_idx transcripts,
                                            start_index = int start_idx,
                                            end_index = int (length transcripts) - 1 \<rparr>]
                           else chunks)
             in Some (if chunks \<noteq> [] then chunks else [whole_chunk transcripts], log')))"

text \<open>An environment for worked examples: the interpreter's defaults, no digits beyond
  ASCII, a backend that always answers \<open>nashi\<close>, and a disk that takes every write.\<close>

definition quiet_env :: env where
  "quiet_env = \<lparr> uni_decimal = (\<lambda>c. None), max_str_digits = 4300,
                  backend = (\<lambda>log prompt. Inr nashi), write_error = (\<lambda>path. None) \<rparr>"

text \<open>An entry stamped 00:00:00 whose text is \<open>n\<close> letters \<^verbatim>\<open>a\<close>; it is rendered in
  \<open>11 + n\<close> characters.\<close>

definition sample_entry :: "nat \<Rightarrow> transcript_entry" where
  "sample_entry n =
     \<lparr> timestamp = \<lparr> hour = 0, minute = 0, second = 0 \<rparr>,
       entry_text = replicate n 97, index = 0 \<rparr>"

text \<open>Scenario B of the specification: 25 entries rendered in 25,000 characters.\<close>

definition scenario_B :: "transcript_entry list" where
  "scenario_B = replicate 24 (sample_entry 988) @ [sample_entry 989]"

section \<open>The minutes generator and updater (templates.py, minutes.py)\<close>

subsection \<open>More built-ins\<close>

text \<open>\<^verbatim>\<open>str(i)\<close> for an integer, and the formats \<^verbatim>\<open>{i:02d}\<close>, \<^verbatim>\<open>{i:03d}\<close>: the sign, then the
  digits padded with zeros to the width.\<close>

definition str_int :: "int \<Rightarrow> ustr" where
  "str_int i = (if i < 0 then 45 # str_nat (nat (- i)) else str_nat (nat i))"

definition zero_pad :: "nat \<Rightarrow> ustr \<Rightarrow> ustr" where
  "zero_pad width s = replicate (width - length s) 48 @ s"

definition format_d :: "nat \<Rightarrow> int \<Rightarrow> ustr" where
  "format_d width i =
     (if i < 0 then 45 # zero_pad (width - 1) (str_nat (nat (- i)))
      else zero_pad width (str_nat (nat i)))"

text \<open>\<^verbatim>\<open>s.replace(old, new)\<close>: the occurrences of \<open>old\<close> are replaced from left to right
  without overlap; an empty \<open>old\<close> matches before every character and at the end.\<close>

function py_replace :: "ustr \<Rightarrow> ustr \<Rightarrow> ustr \<Rightarrow> ustr" where
  "py_replace old new s =
     (if old = [] then new @ concat (map (\<lambda>c. c # new) s)
      else (case s of
              [] \<Rightarrow> []
            | c # cs \<Rightarrow>
                if take (length old) s = old
                then new @ py_replace old new (drop (length old) s)
                else c # py_replace old new cs))"
  by pat_completeness auto
termination
  by (relation "measure (\<lambda>(old, new, s). length s)") auto

declare py_replace.simps [simp del]

subsection \<open>Template and context (templates.py)\<close>

record template =
  content :: ustr
  prompt_hint :: ustr

text \<open>
  What \<^verbatim>\<open>get_default_context\<close> reads from the standard library for a start time and an
  end time: the four \<^verbatim>\<open>strftime\<close> texts and the whole seconds between the two
  (\<^verbatim>\<open>int(duration.total_seconds())\<close>). The end time is the clock at the call.
\<close>

record clock =
  date_text :: ustr
  time_text :: ustr
  end_time_text :: ustr
  datetime_text :: ustr
  elapsed_seconds :: int

text \<open>The context is the dictionary in insertion order; a value is kept as the text
  that \<^verbatim>\<open>str\<close> gives for it.\<close>

definition get_default_context :: "clock \<Rightarrow> int \<Rightarrow> (ustr \<times> ustr) list" where
  "get_default_context clk update_count =
     (let hours = elapsed_seconds clk div 3600;
          remainder = elapsed_seconds clk mod 3600;
          minutes = remainder div 60;
          seconds = remainder mod 60
      in [(ascii ''date'', date_text clk),
          (ascii ''time'', time_text clk),
          (ascii ''end_time'', end_time_text clk),
          (ascii ''datetime'', datetime_text clk),
          (ascii ''duration'',
             format_d 2 hours @ [58] @ format_d 2 minutes @ [58] @ format_d 2 seconds),
          (ascii ''update_count'', str_int update_count)])"

text \<open>\<^verbatim>\<open>TemplateManager.render\<close>\<close>

fun render_items :: "ustr \<Rightarrow> (ustr \<times> ustr) list \<Rightarrow> ustr" where
  "render_items body [] = body"
| "render_items body ((key, v) # items) =
     render_items (py_replace (ascii ''{{'' @ key @ ascii ''}}'') v body) items"

definition render :: "template \<Rightarrow> (ustr \<times> ustr) list \<Rightarrow> ustr" where
  "render t context = render_items (content t) context"

subsection \<open>MinutesGenerator\<close>

definition MAX_TRANSCRIPT_CHARS :: nat where
  "MAX_TRANSCRIPT_CHARS = 150000"

text \<open>\<^verbatim>\<open>FULL_GENERATION_PROMPT\<close> around its fields \<^verbatim>\<open>{template}\<close> and \<^verbatim>\<open>{transcript}\<close>.\<close>

definition FULL_GENERATION_PROMPT_head :: ustr where
  "FULL_GENERATION_PROMPT_head =
     [12354, 12394, 12383, 12399, 35696, 20107, 37682, 20316, 25104, 12450, 12471, 12473,
      12479, 12531, 12488, 12391, 12377, 12290, 10, 20197, 19979, 12398, 25991, 23383,
      36215, 12371, 12375, 12486, 12461, 12473, 12488, 12363, 12425, 12289, 27083, 36896,
      21270, 12373, 12428, 12383, 35696, 20107, 37682, 12434, 20316, 25104, 12375, 12390,
      12367, 12384, 12373, 12356, 12290, 10, 10, 12304, 12523, 12540, 12523, 12305, 10, 45,
      32, 25552, 20379, 12373, 12428, 12383, 12486, 12531, 12503, 12524, 12540, 12488,
      12398, 24418, 24335, 12395, 24467, 12358, 10, 45, 32, 35696, 35542, 12398, 35201,
      28857, 12434, 31777, 28500, 12395, 12414, 12392, 12417, 12427, 10, 45, 32, 27770,
      23450, 20107, 38917, 12420, 84, 79, 68, 79, 12434, 26126, 30906, 12395, 25277, 20986,
      12377, 12427, 10, 45, 32, 30330, 35328, 32773, 12364, 29305, 23450, 12391, 12365,
      12427, 22580, 21512, 12399, 35352, 36617, 12377, 12427, 10, 45, 32, 26178, 31995,
      21015, 12434, 24847, 35672, 12375, 12390, 25972, 29702, 12377, 12427, 10, 10, 12304,
      12486, 12531, 12503, 12524, 12540, 12488, 12305, 10]"

definition FULL_GENERATION_PROMPT_mid :: ustr where
  "FULL_GENERATION_PROMPT_mid =
     [10, 10, 12304, 25991, 23383, 36215, 12371, 12375, 12305, 10]"

definition FULL_GENERATION_PROMPT_tail :: ustr where
  "FULL_GENERATION_PROMPT_tail =
     [10, 10, 12304, 20986, 21147, 12305, 10, 12486, 12531, 12503, 12524, 12540, 12488,
      12395, 27839, 12387, 12383, 35696, 20107, 37682, 12434, 77, 97, 114, 107, 100, 111,
      119, 110, 24418, 24335, 12391, 20986, 21147, 12375, 12390, 12367, 12384, 12373,
      12356, 12290, 10]"

definition FULL_GENERATION_PROMPT_format :: "ustr \<Rightarrow> ustr \<Rightarrow> ustr" where
  "FULL_GENERATION_PROMPT_format template_text transcript =
     FULL_GENERATION_PROMPT_head @ template_text @ FULL_GENERATION_PROMPT_mid @ transcript
       @ FULL_GENERATION_PROMPT_tail"

text \<open>\<^verbatim>\<open>INCREMENTAL_UPDATE_PROMPT\<close> around \<^verbatim>\<open>{current_minutes}\<close> and \<^verbatim>\<open>{new_transcripts}\<close>.\<close>

definition INCREMENTAL_UPDATE_PROMPT_head :: ustr where
  "INCREMENTAL_UPDATE_PROMPT_head =
     [12354, 12394, 12383, 12399, 35696, 20107, 37682, 20316, 25104, 12450, 12471, 12473,
      12479, 12531, 12488, 12391, 12377, 12290, 10, 26082, 23384, 12398, 35696, 20107,
      37682, 12395, 26032, 12375, 12356, 30330, 35328, 20869, 23481, 12434, 32113, 21512,
      12375, 12390, 12289, 35696, 20107, 37682, 12434, 26356, 26032, 12375, 12390, 12367,
      12384, 12373, 12356, 12290, 10, 10, 12304, 12523, 12540, 12523, 12305, 10, 45, 32,
      26032, 12375, 12356, 24773, 22577, 12434, 36969, 20999, 12394, 12475, 12463, 12471,
      12519, 12531, 12395, 36861, 21152, 12539, 32113, 21512, 12377, 12427, 10, 45, 32,
      26082, 23384, 12398, 20869, 23481, 12392, 37325, 35079, 12377, 12427, 22580, 21512,
      12399, 32113, 21512, 12375, 12390, 12414, 12392, 12417, 12427, 10, 45, 32, 35696,
      35542, 12398, 27969, 12428, 12364, 20998, 12363, 12427, 12424, 12358, 12395, 26178,
      31995, 21015, 12434, 24847, 35672, 12377, 12427, 10, 45, 32, 27770, 23450, 20107,
      38917, 12420, 84, 79, 68, 79, 12364, 20986, 12383, 12425, 35442, 24403, 12475, 12463,
      12471, 12519, 12531, 12395, 36861, 21152, 10, 45, 32, 20840, 20307, 12398, 27083,
      25104, 12539, 12501, 12457, 12540, 12510, 12483, 12488, 12399, 32173, 25345, 12377,
      12427, 10, 10, 12304, 29694, 22312, 12398, 35696, 20107, 37682, 12305, 10]"

definition INCREMENTAL_UPDATE_PROMPT_mid :: ustr where
  "INCREMENTAL_UPDATE_PROMPT_mid =
     [10, 10, 12304, 21069, 22238, 26356, 26032, 12363, 12425, 12398, 26032, 12375, 12356,
      30330, 35328, 12305, 10]"

definition INCREMENTAL_UPDATE_PROMPT_tail :: ustr where
  "INCREMENTAL_UPDATE_PROMPT_tail =
     [10, 10, 12304, 20986, 21147, 12305, 10, 26356, 26032, 24460, 12398, 35696, 20107,
      37682, 20840, 20307, 12434, 77, 97, 114, 107, 100, 111, 119, 110, 24418, 24335,
      12391, 20986, 21147, 12375, 12390, 12367, 12384, 12373, 12356, 12290, 10]"

definition INCREMENTAL_UPDATE_PROMPT_format :: "ustr \<Rightarrow> ustr \<Rightarrow> ustr" where
  "INCREMENTAL_UPDATE_PROMPT_format current new_transcripts =
     INCREMENTAL_UPDATE_PROMPT_head @ current @ INCREMENTAL_UPDATE_PROMPT_mid @ new_transcripts
       @ INCREMENTAL_UPDATE_PROMPT_tail"

text \<open>The truncation loop of \<^verbatim>\<open>generate_full\<close>, over the entries latest first: entries
  are taken while the budget holds.\<close>

fun truncate_entries :: "transcript_entry list \<Rightarrow> ustr list \<Rightarrow> nat \<Rightarrow> ustr list" where
  "truncate_entries [] truncated_entries total_len = truncated_entries"
| "truncate_entries (e # es) truncated_entries total_len =
     (if MAX_TRANSCRIPT_CHARS < total_len + length (entry_str e) + 1 then truncated_entries
      else truncate_entries es (truncated_entries @ [entry_str e])
             (total_len + length (entry_str e) + 1))"

text \<open>The prompt \<^verbatim>\<open>generate_full\<close> builds. (The warning it issues on truncation is not
  modelled.)\<close>

definition full_prompt :: "template \<Rightarrow> (ustr \<times> ustr) list \<Rightarrow> transcript_entry list \<Rightarrow> ustr" where
  "full_prompt t context transcripts =
     (let transcript_text = join [10] (map entry_str transcripts);
          transcript_text =
            (if MAX_TRANSCRIPT_CHARS < length transcript_text
             then join [10] (rev (truncate_entries (rev transcripts) [] 0))
             else transcript_text);
          render_context = context @ [(ascii ''transcript'', transcript_text)];
          rendered_template = render t render_context
      in FULL_GENERATION_PROMPT_format rendered_template transcript_text)"

definition generate_full ::
  "'a env_scheme \<Rightarrow> template \<Rightarrow> (ustr \<times> ustr) list \<Rightarrow> transcript_entry list \<Rightarrow> ustr list
     \<Rightarrow> (ustr + ustr) \<times> ustr list" where
  "generate_full en t context transcripts log =
     generate en log (full_prompt t context transcripts)"

definition incremental_prompt :: "ustr \<Rightarrow> transcript_entry list \<Rightarrow> ustr" where
  "incremental_prompt current new_transcripts =
     INCREMENTAL_UPDATE_PROMPT_format current (join [10] (map entry_str new_transcripts))"

definition generate_incremental ::
  "'a env_scheme \<Rightarrow> ustr \<Rightarrow> transcript_entry list \<Rightarrow> ustr list \<Rightarrow> (ustr + ustr) \<times> ustr list" where
  "generate_incremental en current new_transcripts log =
     generate en log (incremental_prompt current new_transcripts)"

subsection \<open>MinutesUpdater\<close>

record update_result =
  success :: bool
  minutes :: ustr
  new_entries_count :: nat
  total_entries_count :: nat
  update_number :: int
  error :: "ustr option"

text \<open>The session state. The files written so far (path and text) stand for the disk.\<close>

record updater =
  template_of :: template
  session_dir :: ustr
  version_history :: bool
  simple_mode :: bool
  last_update_index :: nat
  update_count :: int
  current_minutes :: ustr


text \<open>The message of the fail-fast result (\<^verbatim>\<open>'no transcript'\<close> in Japanese).\<close>

definition no_transcript :: ustr where
  "no_transcript =
     [25991, 23383, 36215, 12371, 12375, 12364, 12354, 12426, 12414, 12379, 12435]"

definition get_new_transcripts :: "updater \<Rightarrow> transcript_entry list \<Rightarrow> transcript_entry list" where
  "get_new_transcripts u transcripts = drop (last_update_index u) transcripts"

text \<open>\<^verbatim>\<open>_save_version\<close>: one file written under \<^verbatim>\<open>history\<close>, or the message of the error
  raised.\<close>

definition save_version ::
  "'a env_scheme \<Rightarrow> updater \<Rightarrow> (ustr \<times> ustr) list \<Rightarrow> ustr + (ustr \<times> ustr) list" where
  "save_version en u files =
     (let version_path = session_dir u @ ascii ''/history/minutes_v''
                           @ format_d 3 (update_count u) @ ascii ''.md''
      in case write_error en version_path of
           Some e \<Rightarrow> Inl e
         | None \<Rightarrow> Inr (files @ [(version_path, current_minutes u)]))"

text \<open>The \<^verbatim>\<open>except\<close> clause of \<^verbatim>\<open>update\<close>.\<close>

definition failed ::
  "updater \<Rightarrow> transcript_entry list \<Rightarrow> ustr \<Rightarrow> update_result \<times> updater" where
  "failed u transcripts e =
     (let u' = u\<lparr> update_count := update_count u - 1 \<rparr>
      in (\<lparr> success = False, minutes = current_minutes u', new_entries_count = 0,
            total_entries_count = length transcripts, update_number = update_count u',
            error = Some e \<rparr>, u'))"

text \<open>Lines 208--220 of \<^verbatim>\<open>update\<close>: the index is advanced, the version is saved when
  asked for, and the result is built.\<close>

definition commit ::
  "'a env_scheme \<Rightarrow> updater \<Rightarrow> transcript_entry list \<Rightarrow> nat \<Rightarrow> (ustr \<times> ustr) list
     \<Rightarrow> update_result \<times> updater \<times> (ustr \<times> ustr) list" where
  "commit en u transcripts new_entries files =
     (let u' = u\<lparr> last_update_index := length transcripts \<rparr>;
          ok = \<lparr> success = True, minutes = current_minutes u',
                   new_entries_count = new_entries,
                   total_entries_count = length transcripts,
                   update_number = update_count u', error = None \<rparr>
      in if version_history u' \<and> \<not> simple_mode u' then
           (case save_version en u' files of
              Inl e \<Rightarrow> (fst (failed u' transcripts e), snd (failed u' transcripts e), files)
            | Inr files' \<Rightarrow> (ok, u', files'))
         else (ok, u', files))"

text \<open>\<^verbatim>\<open>MinutesUpdater.update\<close>. Besides the result and the new session state it returns
  the prompts sent and the files written.\<close>

definition update ::
  "'a env_scheme \<Rightarrow> clock \<Rightarrow> updater \<Rightarrow> transcript_entry list \<Rightarrow> bool \<Rightarrow> ustr list
     \<Rightarrow> (ustr \<times> ustr) list
     \<Rightarrow> update_result \<times> updater \<times> ustr list \<times> (ustr \<times> ustr) list" where
  "update en clk u transcripts full log files =
     (if transcripts = [] then
        (\<lparr> success = False, minutes = [], new_entries_count = 0, total_entries_count = 0,
           update_number = update_count u, error = Some no_transcript \<rparr>, u, log, files)
      else
        let u1 = u\<lparr> update_count := update_count u + 1 \<rparr>;
            context = get_default_context clk (update_count u1)
        in if full \<or> update_count u1 = 1 then
             (case generate_full en (template_of u1) context transcripts log of
                (Inl e, log') \<Rightarrow>
                  (fst (failed u1 transcripts e), snd (failed u1 transcripts e), log', files)
              | (Inr doc, log') \<Rightarrow>
                  (case commit en (u1\<lparr> current_minutes := doc \<rparr>) transcripts
                          (length transcripts) files of
                     (res, u2, files') \<Rightarrow> (res, u2, log', files')))
           else
             let new_transcripts = get_new_transcripts u1 transcripts
             in if new_transcripts = [] then
                  (let u2 = u1\<lparr> update_count := update_count u1 - 1 \<rparr>
                   in (\<lparr> success = True, minutes = current_minutes u2, new_entries_count = 0,
                         total_entries_count = length transcripts,
                         update_number = update_count u2, error = None \<rparr>, u2, log, files))
                else
                  (case generate_incremental en (current_minutes u1) new_transcripts log of
                     (Inl e, log') \<Rightarrow>
                       (fst (failed u1 transcripts e), snd (failed u1 transcripts e), log', files)
                   | (Inr doc, log') \<Rightarrow>
                       (case commit en (u1\<lparr> current_minutes := doc \<rparr>) transcripts
                               (length new_transcripts) files of
                          (res, u2, files') \<Rightarrow> (res, u2, log', files'))))"


definition failing_env :: env where
  "failing_env = quiet_env \<lparr> backend := (\<lambda>log prompt. Inl (ascii ''timeout'')) \<rparr>"

definition noon :: clock where
  "noon = \<lparr> date_text = ascii ''2025-01-01'', time_text = ascii ''12:00'',
            end_time_text = ascii ''12:05'', datetime_text = ascii ''2025-01-01 12:00:00'',
            elapsed_seconds = 300 \<rparr>"

definition plain_template :: template where
  "plain_template = \<lparr> content = ascii ''# {{date}} ({{update_count}})'', prompt_hint = [] \<rparr>"


text \<open>A session after one committed update of a one-entry transcript.\<close>

definition settled :: updater where
  "settled =
     \<lparr> template_of = plain_template, session_dir = ascii ''out'', version_history = False,
       simple_mode = False, last_update_index = 1, update_count = 1,
       current_minutes = ascii ''# notes'' \<rparr>"

section \<open>Properties of the bounded chunk queue\<close>

lemma enqueue_chunk_bounded:
  assumes "length q \<le> audio_queue_maxsize"
  shows "enqueue_chunk q x = Inr ((if length q = audio_queue_maxsize then tl q else q) @ [x])"
  using assms
  by (cases q) (auto simp: enqueue_chunk_def put_nowait_def get_nowait_def audio_queue_maxsize_def)

text \<open>
  On a queue within its capacity of 10, the insertion made by the capture callback
  always completes: into a full queue it removes exactly the oldest item and appends the
  new window, otherwise it just appends. The callback leaves no exception and keeps the
  queue within its capacity, and so does the flush of \<^verbatim>\<open>stop\<close> whenever it returns.
\<close>

lemma callback_drop_oldest:
  assumes "length (audio_queue r) \<le> audio_queue_maxsize"
  shows "audio_queue_maxsize = 10
    \<and> (\<exists>q'. enqueue_chunk (audio_queue r) w = Inr q'
          \<and> length q' \<le> audio_queue_maxsize
          \<and> q' = (if length (audio_queue r) = audio_queue_maxsize
                  then tl (audio_queue r) else audio_queue r) @ [w])
    \<and> snd (snd (audio_callback r b)) = None
    \<and> length (audio_queue (fst (audio_callback r b))) \<le> audio_queue_maxsize
    \<and> (\<forall>r' out. stop r = Some (r', out) \<longrightarrow> length (audio_queue r') \<le> audio_queue_maxsize)"
proof -
  let ?q = "audio_queue r"
  have e: "\<And>x. enqueue_chunk ?q x
      = Inr ((if length ?q = audio_queue_maxsize then tl ?q else ?q) @ [x])"
    using assms by (rule enqueue_chunk_bounded)
  have len: "\<And>x. length ((if length ?q = audio_queue_maxsize then tl ?q else ?q) @ [x])
      \<le> audio_queue_maxsize"
    using assms by (auto simp: audio_queue_maxsize_def)
  have c1: "audio_queue_maxsize = 10" by (simp add: audio_queue_maxsize_def)
  have c2: "\<exists>q'. enqueue_chunk ?q w = Inr q' \<and> length q' \<le> audio_queue_maxsize
          \<and> q' = (if length ?q = audio_queue_maxsize then tl ?q else ?q) @ [w]"
    using e len by blast
  have c3: "snd (snd (audio_callback r b)) = None"
    using e by (simp add: audio_callback_def Let_def)
  have c4: "length (audio_queue (fst (audio_callback r b))) \<le> audio_queue_maxsize"
    using e len assms by (simp add: audio_callback_def Let_def)
  have c5: "\<forall>r' out. stop r = Some (r', out) \<longrightarrow> length (audio_queue r') \<le> audio_queue_maxsize"
    using assms
    by (auto simp: stop_def put_blocking_def Let_def audio_queue_maxsize_def
        split: if_splits option.splits)
  show ?thesis using c1 c2 c3 c4 c5 by blast
qed

section \<open>Properties of the windowing buffer\<close>

lemma length_py_suffix_pos: "0 < n \<Longrightarrow> int (length (py_suffix n xs)) \<le> n"
  by (auto simp: py_suffix_def)

lemma length_build_chunk: "0 < W \<Longrightarrow> int (length (build_chunk W k n)) \<le> W"
  by (auto simp: build_chunk_def Let_def length_py_suffix_pos split: option.splits)

lemma audio_callback_paused:
  "is_paused r \<Longrightarrow> audio_callback r b = (r, None, None)"
  by (simp add: audio_callback_def)

lemma audio_callback_below:
  assumes "\<not> is_paused r" "\<not> step_samples r \<le> int (buffer_samples r + length b)"
  shows "audio_callback r b =
     (r\<lparr> buffer := buffer r @ [b], buffer_samples := buffer_samples r + length b \<rparr>, None, None)"
  using assms by (simp add: audio_callback_def Let_def)

lemma audio_callback_emit:
  assumes "\<not> is_paused r" "step_samples r \<le> int (buffer_samples r + length b)"
    "length (audio_queue r) \<le> audio_queue_maxsize"
  shows "audio_callback r b =
     (r\<lparr> buffer := [], buffer_samples := 0,
         keep_buffer := Some (keep_tail (window_samples r) (step_samples r)
            (build_chunk (window_samples r) (keep_buffer r) (concat (buffer r @ [b])))),
         audio_queue := (if length (audio_queue r) = audio_queue_maxsize
                         then tl (audio_queue r) else audio_queue r)
            @ [build_chunk (window_samples r) (keep_buffer r) (concat (buffer r @ [b]))] \<rparr>,
      Some (build_chunk (window_samples r) (keep_buffer r) (concat (buffer r @ [b]))), None)"
  using assms by (simp add: audio_callback_def Let_def enqueue_chunk_bounded)


lemma audio_callback_inv:
  assumes inv: "recorder_inv W S r" and cb: "audio_callback r b = (r', out, err)"
  shows "err = None \<and> recorder_inv W S r'
     \<and> (out = None \<longrightarrow> keep_buffer r' = keep_buffer r)
     \<and> (\<forall>w. out = Some w \<longrightarrow>
            w = build_chunk W (keep_buffer r) (concat (buffer r @ [b]))
          \<and> S \<le> int (length (concat (buffer r @ [b])))
          \<and> keep_buffer r' = Some (keep_tail W S w))"
proof -
  from inv have W: "window_samples r = W" and S: "step_samples r = S"
    and q: "length (audio_queue r) \<le> audio_queue_maxsize"
    and bs: "buffer_samples r = length (concat (buffer r))"
    by (simp_all add: recorder_inv_def)
  consider (paused) "is_paused r"
    | (below) "\<not> is_paused r" "\<not> step_samples r \<le> int (buffer_samples r + length b)"
    | (emit) "\<not> is_paused r" "step_samples r \<le> int (buffer_samples r + length b)"
    by blast
  then show ?thesis
  proof cases
    case paused
    with cb inv show ?thesis by (simp add: audio_callback_paused)
  next
    case below
    from audio_callback_below [OF below] cb
    have r': "r' = r\<lparr> buffer := buffer r @ [b], buffer_samples := buffer_samples r + length b \<rparr>"
      and o: "out = None" and e: "err = None" by simp_all
    have "recorder_inv W S r'"
      using inv below(2) S unfolding r' recorder_inv_def by simp
    with r' o e show ?thesis by simp
  next
    case emit
    from audio_callback_emit [OF emit q] cb
    have r': "r' = r\<lparr> buffer := [], buffer_samples := 0,
         keep_buffer := Some (keep_tail (window_samples r) (step_samples r)
            (build_chunk (window_samples r) (keep_buffer r) (concat (buffer r @ [b])))),
         audio_queue := (if length (audio_queue r) = audio_queue_maxsize
                         then tl (audio_queue r) else audio_queue r)
            @ [build_chunk (window_samples r) (keep_buffer r) (concat (buffer r @ [b]))] \<rparr>"
      and o: "out = Some (build_chunk (window_samples r) (keep_buffer r) (concat (buffer r @ [b])))"
      and e: "err = None" by simp_all
    have ql: "length ((if length (audio_queue r) = audio_queue_maxsize
                         then tl (audio_queue r) else audio_queue r)
            @ [build_chunk (window_samples r) (keep_buffer r) (concat (buffer r @ [b]))])
          \<le> audio_queue_maxsize"
      using q by (auto simp: audio_queue_maxsize_def)
    have i: "recorder_inv W S r'"
      unfolding r' recorder_inv_def using W S ql by simp
    have n: "S \<le> int (length (concat (buffer r @ [b])))"
      using emit(2) bs S by simp
    show ?thesis using i n o e W S unfolding r' by simp
  qed
qed

lemma feed_linked:
  "recorder_inv W S r \<Longrightarrow> feed r evs = (r', ems) \<Longrightarrow>
     recorder_inv W S r' \<and> linked W S (keep_buffer r) ems"
proof (induction evs arbitrary: r r' ems)
  case Nil
  then show ?case by simp
next
  case (Cons ev evs)
  show ?case
  proof (cases ev)
    case Pause
    have "recorder_inv W S (pause r)" using Cons.prems(1) unfolding pause_def recorder_inv_def by auto
    from Cons.IH [OF this] Cons.prems(2) Pause show ?thesis by (simp add: pause_def)
  next
    case Resume
    have "recorder_inv W S (resume r)" using Cons.prems(1) unfolding resume_def recorder_inv_def by auto
    from Cons.IH [OF this] Cons.prems(2) Resume show ?thesis by (simp add: resume_def)
  next
    case (Samples b)
    obtain r1 out err where cb: "audio_callback r b = (r1, out, err)"
      by (cases "audio_callback r b") auto
    from audio_callback_inv [OF Cons.prems(1) cb]
    have err: "err = None" and inv1: "recorder_inv W S r1"
      and keep: "out = None \<longrightarrow> keep_buffer r1 = keep_buffer r"
      and emit: "\<forall>w. out = Some w \<longrightarrow>
            w = build_chunk W (keep_buffer r) (concat (buffer r @ [b]))
          \<and> S \<le> int (length (concat (buffer r @ [b])))
          \<and> keep_buffer r1 = Some (keep_tail W S w)"
      by blast+
    show ?thesis
    proof (cases out)
      case None
      with cb err Cons.prems(2) Samples have f: "feed r1 evs = (r', ems)" by simp
      from Cons.IH [OF inv1 f] None keep show ?thesis by simp
    next
      case (Some w)
      obtain r2 ems2 where f: "feed r1 evs = (r2, ems2)" by (cases "feed r1 evs") auto
      with cb err Some Cons.prems(2) Samples
      have eq: "r' = r2" "ems = (concat (buffer r @ [b]), w) # ems2" by simp_all
      from Cons.IH [OF inv1 f]
      have "recorder_inv W S r2" "linked W S (keep_buffer r1) ems2" by simp_all
      with emit Some eq show ?thesis by simp
    qed
  qed
qed


lemma linked_length:
  "0 < W \<Longrightarrow> linked W S k ems \<Longrightarrow> i < length ems \<Longrightarrow> int (length (snd (ems ! i))) \<le> W"
proof (induction ems arbitrary: k i)
  case Nil
  then show ?case by simp
next
  case (Cons e ems)
  obtain n w where e: "e = (n, w)" by (cases e)
  from Cons.prems(2) e have w: "w = build_chunk W k n"
    and l: "linked W S (Some (keep_tail W S w)) ems" by auto
  show ?case
  proof (cases i)
    case 0
    with Cons.prems(1) e w show ?thesis by (simp add: length_build_chunk)
  next
    case (Suc j)
    with Cons.prems(3) have "j < length ems" by simp
    from Cons.IH [OF Cons.prems(1) l this] Suc show ?thesis by simp
  qed
qed

lemma linked_step:
  "linked W S k ems \<Longrightarrow> Suc i < length ems \<Longrightarrow>
     snd (ems ! Suc i) = build_chunk W (Some (keep_tail W S (snd (ems ! i)))) (fst (ems ! Suc i))
     \<and> S \<le> int (length (fst (ems ! Suc i)))"
proof (induction ems arbitrary: k i)
  case Nil
  then show ?case by simp
next
  case (Cons e ems)
  obtain n w where e: "e = (n, w)" by (cases e)
  from Cons.prems(1) e have l: "linked W S (Some (keep_tail W S w)) ems" by auto
  show ?case
  proof (cases i)
    case 0
    then obtain e2 rest where r: "ems = e2 # rest" using Cons.prems(2) by (cases ems) auto
    obtain n2 w2 where e2: "e2 = (n2, w2)" by (cases e2)
    from l e r e2 0 show ?thesis by simp
  next
    case (Suc j)
    with Cons.prems(2) have "Suc j < length ems" by simp
    from Cons.IH [OF l this] Suc show ?thesis by simp
  qed
qed

lemma chunk_of_tail:
  assumes W: "0 < W" and nW: "int (length n) \<le> W" and m: "m \<le> length w"
  shows "build_chunk W (Some (drop (length w - m) w)) n
       = drop (length w - min m (nat W - length n)) w @ n"
proof (cases "W < int (m + length n)")
  case True
  have lk: "length (drop (length w - m) w) = m" using m by simp
  have "build_chunk W (Some (drop (length w - m) w)) n
      = py_suffix W (drop (length w - m) w @ n)"
    using True lk by (simp add: build_chunk_def Let_def)
  also have "\<dots> = drop (m + length n - nat W) (drop (length w - m) w @ n)"
    using W lk by (simp add: py_suffix_def)
  also have "\<dots> = drop (m + length n - nat W) (drop (length w - m) w) @ n"
    using lk nW W by simp
  also have "drop (m + length n - nat W) (drop (length w - m) w)
      = drop (length w - m + (m + length n - nat W)) w"
    by (simp add: add.commute)
  also have "length w - m + (m + length n - nat W) = length w - min m (nat W - length n)"
  proof -
    have "nat W - length n < m" using True nW W by linarith
    hence "min m (nat W - length n) = nat W - length n" by simp
    moreover have "length w - m + (m + length n - nat W) = length w - (nat W - length n)"
      using True m nW W by linarith
    ultimately show ?thesis by (simp only:)
  qed
  finally show ?thesis .
next
  case False
  have lk: "length (drop (length w - m) w) = m" using m by simp
  have "build_chunk W (Some (drop (length w - m) w)) n = drop (length w - m) w @ n"
    using False lk by (simp add: build_chunk_def Let_def)
  moreover have "min m (nat W - length n) = m"
    using False nW W by linarith
  ultimately show ?thesis by simp
qed

lemma build_chunk_overlap:
  assumes W: "0 < W" and SW: "S \<le> W" and nW: "int (length n) \<le> W" and Sn: "S \<le> int (length n)"
  shows "build_chunk W (Some (keep_tail W S w)) n = drop (length w - overlap W S w n) w @ n"
proof (cases "W - S < int (length w) \<and> W = S")
  case True
  hence eq: "W = S" and long: "0 < length w" by auto
  with True have k: "keep_tail W S w = w" by (simp add: keep_tail_def Let_def py_suffix_def)
  from eq nW Sn have ln: "int (length n) = W" by simp
  from long have cut: "W < int (length (w @ n))" using ln by simp
  have "build_chunk W (Some (keep_tail W S w)) n = py_suffix W (w @ n)"
    using cut k by (simp add: build_chunk_def Let_def)
  also have "\<dots> = drop (length (w @ n) - nat W) (w @ n)"
    using W by (simp add: py_suffix_def)
  also have "length (w @ n) - nat W = length w" using ln by simp
  finally have "build_chunk W (Some (keep_tail W S w)) n = n" by simp
  moreover have "overlap W S w n = 0" using eq by (simp add: overlap_def)
  ultimately show ?thesis by simp
next
  case False
  let ?m = "min (nat (W - S)) (length w)"
  have k: "keep_tail W S w = drop (length w - ?m) w"
    using False SW by (auto simp: keep_tail_def Let_def py_suffix_def min_def)
  have "build_chunk W (Some (drop (length w - ?m) w)) n
       = drop (length w - min ?m (nat W - length n)) w @ n"
    by (rule chunk_of_tail [OF W nW]) simp
  thus ?thesis unfolding k overlap_def .
qed

lemma overlap_aligned:
  "S \<le> W \<Longrightarrow> int (length n) = S \<Longrightarrow> overlap W S w n = min (nat (W - S)) (length w)"
  unfolding overlap_def by (simp add: min_def)

lemma stop_flush:
  assumes "recorder_inv W S r" "stop r = Some (r', Some w)"
  shows "w = concat (buffer r) \<and> int (length w) < S"
  using assms
  by (auto simp: stop_def recorder_inv_def Let_def split: if_splits option.splits)

lemma recorder_inv_init: "recorder_inv W S (init_recorder S W)"
  by (simp add: recorder_inv_def init_recorder_def audio_queue_maxsize_def)

lemmas feed_eval = audio_callback_def Let_def build_chunk_def keep_tail_def py_suffix_def
  enqueue_chunk_def put_nowait_def get_nowait_def audio_queue_maxsize_def init_recorder_def

lemma three_steps:
  assumes "int (length b1) = S" "int (length b2) = S" "int (length b3) = S" "W = 3 * S"
  shows "windows (snd (feed (init_recorder S W) [Samples b1, Samples b2, Samples b3]))
     = [b1, b1 @ b2, b1 @ b2 @ b3]"
  using assms
  by (simp add: feed_eval windows_def)

text \<open>With \<open>window_samples = 0\<close> the cut \<^verbatim>\<open>chunk[-0:]\<close> keeps the whole chunk, so the bound
  on the window length needs a positive window.\<close>

lemma zero_window_not_cut:
  "windows (snd (feed (init_recorder 0 0) [Samples [1::nat]])) = [[1]]"
  by (simp add: feed_eval windows_def)

text \<open>
  Claim C7 (as amended). With sample rate 16000, a step of 5 s and a window of 15 s
  (80,000 and 240,000 samples), feeding 80,000 samples three times emits exactly three
  windows: the first block alone, the first two blocks, and all three blocks. Their
  lengths are 80,000, 160,000 and 240,000; the second opens with the 80,000 samples of
  the first and the third with the 160,000 samples of the second.
\<close>

theorem scenario_A_windows:
  assumes "length b1 = 80000" "length b2 = 80000" "length b3 = 80000"
  shows "windows (snd (feed (init_recorder (16000 * 5) (16000 * 15))
            [Samples b1, Samples b2, Samples b3])) = [b1, b1 @ b2, b1 @ b2 @ b3]
     \<and> map length (windows (snd (feed (init_recorder (16000 * 5) (16000 * 15))
            [Samples b1, Samples b2, Samples b3]))) = [80000, 160000, 240000]"
proof -
  have "windows (snd (feed (init_recorder 80000 240000) [Samples b1, Samples b2, Samples b3]))
      = [b1, b1 @ b2, b1 @ b2 @ b3]"
    by (rule three_steps) (simp_all add: assms)
  thus ?thesis using assms by simp
qed

theorem scenario_A_windows_witness:
  "length (replicate 80000 (1::nat)) = 80000 \<and> length (replicate 80000 (2::nat)) = 80000
   \<and> length (replicate 80000 (3::nat)) = 80000
   \<and> map length (windows (snd (feed (init_recorder (16000 * 5) (16000 * 15))
        [Samples (replicate 80000 (1::nat)), Samples (replicate 80000 2),
         Samples (replicate 80000 3)]))) = [80000, 160000, 240000]"
proof -
  have l1: "length (replicate 80000 (1::nat)) = 80000"
    and l2: "length (replicate 80000 (2::nat)) = 80000"
    and l3: "length (replicate 80000 (3::nat)) = 80000"
    by (simp_all only: length_replicate)
  from scenario_A_windows [OF l1 l2 l3]
  have "map length (windows (snd (feed (init_recorder (16000 * 5) (16000 * 15))
        [Samples (replicate 80000 (1::nat)), Samples (replicate 80000 2),
         Samples (replicate 80000 3)]))) = [80000, 160000, 240000]"
    by (rule conjunct2)
  with l1 l2 l3 show ?thesis by (intro conjI)
qed

text \<open>The claim as stated gives the third window 160,000 samples; it has 240,000.\<close>

theorem scenario_A_third_window_counterexample:
  "map length (windows (snd (feed (init_recorder 80000 240000)
        [Samples (replicate 80000 (1::nat)), Samples (replicate 80000 2),
         Samples (replicate 80000 3)]))) = [80000, 160000, 240000]
   \<and> map length (windows (snd (feed (init_recorder 80000 240000)
        [Samples (replicate 80000 (1::nat)), Samples (replicate 80000 2),
         Samples (replicate 80000 3)]))) \<noteq> [80000, 160000, 160000]"
proof -
  have "windows (snd (feed (init_recorder 80000 240000)
        [Samples (replicate 80000 (1::nat)), Samples (replicate 80000 2),
         Samples (replicate 80000 3)]))
      = [replicate 80000 1, replicate 80000 1 @ replicate 80000 2,
         replicate 80000 1 @ replicate 80000 2 @ replicate 80000 3]"
    by (rule three_steps) simp_all
  thus ?thesis by simp
qed

text \<open>
  Claim C8 (as amended). Let the window be positive and the step at most the window, and
  run any sequence of blocks, pauses and resumes on a new recorder. Every window the
  callback emits has at most \<open>window_samples\<close> samples, and the window flushed by
  \<^verbatim>\<open>stop\<close> is exactly the buffered samples, fewer than \<open>step_samples\<close>. A window built
  from at most \<open>window_samples\<close> new samples consists of the last \<open>overlap\<close> samples of
  its predecessor followed by the new samples, where \<open>overlap\<close> is the least of
  \<open>window_samples - step_samples\<close>, the length of the predecessor, and
  \<open>window_samples\<close> less the number of new samples; when exactly \<open>step_samples\<close> new
  samples were accumulated this is
  \<open>min (window_samples - step_samples) (length of the predecessor)\<close>.
\<close>

theorem windows_bounded_overlap:
  assumes "0 < W" "S \<le> W" "feed (init_recorder S W) evs = (r, ems)"
  shows "(\<forall>i<length ems. int (length (snd (ems ! i))) \<le> W)
     \<and> (\<forall>r' w. stop r = Some (r', Some w) \<longrightarrow>
           w = concat (buffer r) \<and> int (length w) < S \<and> int (length w) \<le> W)
     \<and> (\<forall>i. Suc i < length ems \<longrightarrow> int (length (fst (ems ! Suc i))) \<le> W \<longrightarrow>
           snd (ems ! Suc i)
             = drop (length (snd (ems ! i)) - overlap W S (snd (ems ! i)) (fst (ems ! Suc i)))
                 (snd (ems ! i)) @ fst (ems ! Suc i))
     \<and> (\<forall>i. Suc i < length ems \<longrightarrow> int (length (fst (ems ! Suc i))) = S \<longrightarrow>
           overlap W S (snd (ems ! i)) (fst (ems ! Suc i))
             = min (nat (W - S)) (length (snd (ems ! i))))"
proof -
  from feed_linked [OF recorder_inv_init assms(3)]
  have inv: "recorder_inv W S r" and l: "linked W S (keep_buffer (init_recorder S W)) ems"
    by simp_all
  have a: "\<forall>i<length ems. int (length (snd (ems ! i))) \<le> W"
    using linked_length [OF assms(1) l] by blast
  have b: "\<forall>r' w. stop r = Some (r', Some w) \<longrightarrow>
           w = concat (buffer r) \<and> int (length w) < S \<and> int (length w) \<le> W"
    using stop_flush [OF inv] assms(2) by fastforce
  have c: "\<forall>i. Suc i < length ems \<longrightarrow> int (length (fst (ems ! Suc i))) \<le> W \<longrightarrow>
           snd (ems ! Suc i)
             = drop (length (snd (ems ! i)) - overlap W S (snd (ems ! i)) (fst (ems ! Suc i)))
                 (snd (ems ! i)) @ fst (ems ! Suc i)"
  proof (intro allI impI)
    fix i assume i: "Suc i < length ems" and n: "int (length (fst (ems ! Suc i))) \<le> W"
    from linked_step [OF l i]
    have w: "snd (ems ! Suc i)
        = build_chunk W (Some (keep_tail W S (snd (ems ! i)))) (fst (ems ! Suc i))"
      and s: "S \<le> int (length (fst (ems ! Suc i)))" by simp_all
    show "snd (ems ! Suc i)
        = drop (length (snd (ems ! i)) - overlap W S (snd (ems ! i)) (fst (ems ! Suc i)))
            (snd (ems ! i)) @ fst (ems ! Suc i)"
      unfolding w [symmetric, THEN sym]
      using build_chunk_overlap [OF assms(1) assms(2) n s] w by simp
  qed
  have d: "\<forall>i. Suc i < length ems \<longrightarrow> int (length (fst (ems ! Suc i))) = S \<longrightarrow>
           overlap W S (snd (ems ! i)) (fst (ems ! Suc i))
             = min (nat (W - S)) (length (snd (ems ! i)))"
    using overlap_aligned [OF assms(2)] by blast
  show ?thesis using a b c d by blast
qed

theorem windows_bounded_overlap_witness:
  "(0::int) < 4 \<and> (2::int) \<le> 4
   \<and> feed (init_recorder 2 4) [Samples [1,2::nat], Samples [3,4], Samples [5,6], Samples [7]]
      = (\<lparr>step_samples = 2, window_samples = 4,
           audio_queue = [[1, 2], [1, 2, 3, 4], [3, 4, 5, 6]], buffer = [[7]],
           buffer_samples = 1, keep_buffer = Some [5, 6], is_paused = False\<rparr>,
         [([1, 2], [1, 2]), ([3, 4], [1, 2, 3, 4]), ([5, 6], [3, 4, 5, 6])])
   \<and> overlap 4 2 [1,2,3,4::nat] [5,6::nat] = 2
   \<and> [3,4,5,6::nat] = drop (4 - 2) [1,2,3,4] @ [5,6]"
  using windows_bounded_overlap [of 4 2
      "[Samples [1,2::nat], Samples [3,4], Samples [5,6], Samples [7]]"
      "\<lparr>step_samples = 2, window_samples = 4,
           audio_queue = [[1, 2], [1, 2, 3, 4], [3, 4, 5, 6]], buffer = [[7]],
           buffer_samples = 1, keep_buffer = Some [5, 6], is_paused = False\<rparr>"
      "[([1, 2], [1, 2]), ([3, 4], [1, 2, 3, 4]), ([5, 6], [3, 4, 5, 6])]"]
  by (simp add: feed_eval overlap_def)

text \<open>The claim as stated: consecutive windows overlap by exactly
  \<open>min (window_samples - step_samples) available_history\<close>. With a window of 4 and a step
  of 2, blocks of three samples give the windows \<open>[1,2,3]\<close> and \<open>[3,4,5,6]\<close>: the second
  does not open with the last \<open>min (4 - 2) 3 = 2\<close> samples of the first.\<close>

theorem overlap_counterexample:
  "windows (snd (feed (init_recorder 2 4) [Samples [1,2,3::nat], Samples [4,5,6]]))
     = [[1,2,3],[3,4,5,6]]
   \<and> min (nat (4 - 2)) (length [1,2,3::nat]) = 2
   \<and> take 2 [3,4,5,6::nat] \<noteq> drop (length [1,2,3::nat] - 2) [1,2,3]"
  by (simp add: feed_eval windows_def)

section \<open>The flush of stop on a full queue\<close>

text \<open>
  Claim C9. The queue never holds more than 10 items, and every push into a full queue
  evicts exactly the oldest item before inserting the new one and never blocks. The
  callback's push does so (\<open>callback_drop_oldest\<close>); the push made by \<^verbatim>\<open>stop\<close> does not.
  Ten blocks of a full step fill the queue with ten windows when no consumer takes them,
  and an eleventh, shorter block stays in the buffer. On this recorder the callback's
  insertion of a window \<open>[99]\<close> would drop the oldest window \<open>[1,2]\<close>, whereas \<^verbatim>\<open>stop\<close>,
  which pushes the flushed window \<open>[99]\<close> with the blocking \<^verbatim>\<open>put\<close>, waits: nothing is
  evicted and nothing is inserted.
\<close>

theorem stop_blocks_on_full_queue:
  "audio_queue (fst (feed (init_recorder 2 4)
       [Samples [1,2::nat], Samples [3,4], Samples [5,6], Samples [7,8], Samples [9,10], Samples [11,12], Samples [13,14], Samples [15,16], Samples [17,18], Samples [19,20], Samples [99]])) = [[1,2], [1,2,3,4], [3,4,5,6], [5,6,7,8], [7,8,9,10], [9,10,11,12], [11,12,13,14], [13,14,15,16], [15,16,17,18], [17,18,19,20]]
   \<and> length (audio_queue (fst (feed (init_recorder 2 4)
       [Samples [1,2::nat], Samples [3,4], Samples [5,6], Samples [7,8], Samples [9,10], Samples [11,12], Samples [13,14], Samples [15,16], Samples [17,18], Samples [19,20], Samples [99]]))) = audio_queue_maxsize
   \<and> buffer (fst (feed (init_recorder 2 4)
       [Samples [1,2::nat], Samples [3,4], Samples [5,6], Samples [7,8], Samples [9,10], Samples [11,12], Samples [13,14], Samples [15,16], Samples [17,18], Samples [19,20], Samples [99]])) = [[99]]
   \<and> enqueue_chunk (audio_queue (fst (feed (init_recorder 2 4)
       [Samples [1,2::nat], Samples [3,4], Samples [5,6], Samples [7,8], Samples [9,10], Samples [11,12], Samples [13,14], Samples [15,16], Samples [17,18], Samples [19,20], Samples [99]]))) [99]
       = Inr [[1,2,3,4], [3,4,5,6], [5,6,7,8], [7,8,9,10], [9,10,11,12], [11,12,13,14], [13,14,15,16], [15,16,17,18], [17,18,19,20], [99]]
   \<and> stop (fst (feed (init_recorder 2 4)
       [Samples [1,2::nat], Samples [3,4], Samples [5,6], Samples [7,8], Samples [9,10], Samples [11,12], Samples [13,14], Samples [15,16], Samples [17,18], Samples [19,20], Samples [99]])) = None"
  by (simp add: feed_eval stop_def put_blocking_def pause_def resume_def)

section \<open>Properties of the reply parser\<close>

lemma strip_nashi: "strip nashi = nashi"
  by (simp add: strip_def nashi_def py_isspace_def)

lemma parse_nashi: "parse_boundaries ip nashi lo hi = []"
  by (simp add: parse_boundaries_def strip_nashi)

lemma parse_empty: "parse_boundaries ip [] lo hi = []"
  by (simp add: parse_boundaries_def strip_def)

lemma collect_boundaries_eq:
  "collect_boundaries ip lo hi parts acc
     = acc @ filter (\<lambda>i. lo < i \<and> i < hi) (List.map_filter (py_int ip) parts)"
  by (induction parts arbitrary: acc) (auto simp: List.map_filter_simps split: option.splits)

lemma parse_boundaries_eq:
  "strip r \<noteq> nashi \<Longrightarrow> strip r \<noteq> [] \<Longrightarrow>
   parse_boundaries ip r lo hi
     = sort (filter (\<lambda>i. lo < i \<and> i < hi)
          (List.map_filter (py_int ip) (split_on 44 (remove_spaces (strip r)))))"
  by (simp add: parse_boundaries_def collect_boundaries_eq)

lemma parse_boundaries_sorted: "sorted (parse_boundaries ip r lo hi)"
  by (simp add: parse_boundaries_def Let_def)

lemma parse_boundaries_range:
  "i \<in> set (parse_boundaries ip r lo hi) \<Longrightarrow> lo < i \<and> i < hi"
  by (auto simp: parse_boundaries_def Let_def collect_boundaries_eq split: if_splits)

lemma py_int_5: "py_int ip (ascii ''5'') = Some 5"
  by (simp add: py_int_def parse_ascii_int_def ascii_def ascii_space_def is_digit_def digits_value_def)

lemma py_int_12: "py_int ip (ascii ''12'') = Some 12"
  by (simp add: py_int_def parse_ascii_int_def ascii_def ascii_space_def is_digit_def digits_value_def)

lemma py_int_23: "py_int ip (ascii ''23'') = Some 23"
  by (simp add: py_int_def parse_ascii_int_def ascii_def ascii_space_def is_digit_def digits_value_def)

lemma split_example: "split_on 44 (remove_spaces (strip (ascii ''5,12,23'')))
   = [ascii ''5'', ascii ''12'', ascii ''23'']"
  by (simp add: strip_def remove_spaces_def ascii_def py_isspace_def)

lemma parse_example:
  "parse_boundaries ip (ascii ''5,12,23'') lo hi = filter (\<lambda>i. lo < i \<and> i < hi) [5, 12, 23]"
proof -
  have s: "strip (ascii ''5,12,23'') \<noteq> nashi" "strip (ascii ''5,12,23'') \<noteq> []"
    by (simp_all add: strip_def ascii_def py_isspace_def nashi_def)
  have "sorted (filter (\<lambda>i. lo < i \<and> i < hi) [5, 12, 23])"
    by (rule sorted_wrt_filter) simp
  hence "sort (filter (\<lambda>i. lo < i \<and> i < hi) [5, 12, 23]) = filter (\<lambda>i. lo < i \<and> i < hi) [5, 12, 23]"
    by (rule sorted_sort_id)
  thus ?thesis
    unfolding parse_boundaries_eq [OF s] split_example
    by (simp add: List.map_filter_simps py_int_5 py_int_12 py_int_23)
qed

text \<open>
  Claim C5. The replies \<open>nashi\<close> and the empty string give no boundary. The reply
  \<^verbatim>\<open>5,12,23\<close> gives \<open>[5, 12, 23]\<close> filtered to the open interval between the window's
  start and end. For every other reply the result is the sorted list of the numbers that
  \<^verbatim>\<open>int\<close> reads from the comma-separated parts (blanks removed) and that lie strictly
  inside the interval: a part that is not a number and a number out of range are
  dropped. The result is always sorted in ascending order and within the interval.
\<close>

theorem parse_boundaries_spec:
  "parse_boundaries ip nashi lo hi = []
   \<and> parse_boundaries ip [] lo hi = []
   \<and> parse_boundaries ip (ascii ''5,12,23'') lo hi = filter (\<lambda>i. lo < i \<and> i < hi) [5, 12, 23]
   \<and> (strip r \<noteq> nashi \<longrightarrow> strip r \<noteq> [] \<longrightarrow>
        parse_boundaries ip r lo hi
          = sort (filter (\<lambda>i. lo < i \<and> i < hi)
              (List.map_filter (py_int ip) (split_on 44 (remove_spaces (strip r))))))
   \<and> sorted (parse_boundaries ip r lo hi)
   \<and> (\<forall>i \<in> set (parse_boundaries ip r lo hi). lo < i \<and> i < hi)"
proof (intro conjI impI ballI)
  show "parse_boundaries ip nashi lo hi = []" by (rule parse_nashi)
  show "parse_boundaries ip [] lo hi = []" by (rule parse_empty)
  show "parse_boundaries ip (ascii ''5,12,23'') lo hi
      = filter (\<lambda>i. lo < i \<and> i < hi) [5, 12, 23]" by (rule parse_example)
  show "sorted (parse_boundaries ip r lo hi)" by (rule parse_boundaries_sorted)
next
  assume "strip r \<noteq> nashi" "strip r \<noteq> []"
  thus "parse_boundaries ip r lo hi
      = sort (filter (\<lambda>i. lo < i \<and> i < hi)
          (List.map_filter (py_int ip) (split_on 44 (remove_spaces (strip r)))))"
    by (rule parse_boundaries_eq)
next
  fix i assume "i \<in> set (parse_boundaries ip r lo hi)"
  thus "lo < i" "i < hi" using parse_boundaries_range by blast+
qed

theorem parse_boundaries_spec_witness:
  "strip (ascii '' 23, x, 5 ,99,1_2,'') \<noteq> nashi \<and> strip (ascii '' 23, x, 5 ,99,1_2,'') \<noteq> []
   \<and> parse_boundaries (interp.truncate quiet_env) (ascii '' 23, x, 5 ,99,1_2,'') 0 25
       = [5, 12, 23]
   \<and> parse_boundaries (interp.truncate quiet_env) (ascii ''5,12,23'') 5 23 = [12]"
proof -
  have s: "strip (ascii '' 23, x, 5 ,99,1_2,'') = ascii ''23, x, 5 ,99,1_2,''"
    by (simp add: strip_def ascii_def py_isspace_def)
  have n: "strip (ascii '' 23, x, 5 ,99,1_2,'') \<noteq> nashi"
      "strip (ascii '' 23, x, 5 ,99,1_2,'') \<noteq> []"
    unfolding s by (simp_all add: ascii_def nashi_def)
  have p: "List.map_filter (py_int (interp.truncate quiet_env))
             (split_on 44 (remove_spaces (ascii ''23, x, 5 ,99,1_2,''))) = [23, 5, 99, 12]"
    by (simp add: remove_spaces_def ascii_def List.map_filter_simps py_int_def
        parse_ascii_int_def ascii_space_def is_digit_def digits_value_def)
  from parse_boundaries_spec [of "interp.truncate quiet_env" 0 25 "ascii '' 23, x, 5 ,99,1_2,''"] n
  have "parse_boundaries (interp.truncate quiet_env) (ascii '' 23, x, 5 ,99,1_2,'') 0 25
      = sort (filter (\<lambda>i. 0 < i \<and> i < 25)
              (List.map_filter (py_int (interp.truncate quiet_env))
                 (split_on 44 (remove_spaces (strip (ascii '' 23, x, 5 ,99,1_2,''))))))"
    by blast
  hence a: "parse_boundaries (interp.truncate quiet_env) (ascii '' 23, x, 5 ,99,1_2,'') 0 25
      = [5, 12, 23]"
    unfolding s p by simp
  from parse_boundaries_spec [of "interp.truncate quiet_env" 5 23 "[]"]
  have b: "parse_boundaries (interp.truncate quiet_env) (ascii ''5,12,23'') 5 23 = [12]"
    by simp
  from n a b show ?thesis by blast
qed

section \<open>Properties of the chunk splitter\<close>

text \<open>
  Claim C10. On an empty transcript \<^verbatim>\<open>split\<close> returns the empty list of chunks, not a
  list holding one empty chunk, and sends nothing to the backend: the list of prompts
  is unchanged.
\<close>

theorem split_empty_transcript:
  "split en [] log = Some ([], log) \<and> fst (the (split en [] log)) \<noteq> [whole_chunk []]"
  by (simp add: split_def)

theorem split_empty_transcript_witness:
  "split quiet_env [] [] = Some ([], [])"
  using split_empty_transcript [of quiet_env "[]"] by simp

lemma cut_chunks_concat:
  "concat (map entries chunks) = take start_idx ts \<Longrightarrow>
   cut_chunks ts bs start_idx chunks = (chunks', start') \<Longrightarrow>
   concat (map entries chunks') = take start' ts"
proof (induction bs arbitrary: start_idx chunks)
  case Nil
  then show ?case by simp
next
  case (Cons b bs)
  show ?case
  proof (cases "start_idx < b")
    case True
    have "take start_idx ts @ take (b - start_idx) (drop start_idx ts) = take b ts"
      using True by (metis le_add_diff_inverse less_imp_le_nat take_add)
    hence "concat (map entries (chunks @ [\<lparr> entries = take (b - start_idx) (drop start_idx ts),
                          start_index = int start_idx, end_index = int b - 1 \<rparr>])) = take b ts"
      using Cons.prems(1) by simp
    from Cons.IH [OF this] Cons.prems(2) True show ?thesis by simp
  next
    case False
    with Cons.IH [OF Cons.prems(1)] Cons.prems(2) show ?thesis by simp
  qed
qed

lemma split_concat:
  assumes "split en ts log = Some (chunks, log')"
  shows "concat (map entries chunks) = ts"
proof (cases "ts = [] \<or> length (join [10] (map entry_str ts)) \<le> CHUNK_THRESHOLD")
  case True
  with assms show ?thesis by (auto simp: split_def whole_chunk_def split: if_splits)
next
  case False
  with assms obtain bs where d: "detect_boundaries en ts log = Some (bs, log')"
    by (auto simp: split_def Let_def split: option.splits prod.splits if_splits)
  obtain cs st where c: "cut_chunks ts bs 0 [] = (cs, st)" by (cases "cut_chunks ts bs 0 []")
  have cc: "concat (map entries cs) = take st ts"
    by (rule cut_chunks_concat [OF _ c]) simp
  from assms False d c
  have "chunks = (let chunks = (if st < length ts
                           then cs @ [\<lparr> entries = drop st ts, start_index = int st,
                                            end_index = int (length ts) - 1 \<rparr>]
                           else cs)
             in (if chunks \<noteq> [] then chunks else [whole_chunk ts]))"
    by (simp add: split_def Let_def)
  thus ?thesis using cc by (auto simp: Let_def whole_chunk_def split: if_splits)
qed

lemma split_small:
  "ts \<noteq> [] \<Longrightarrow> length (join [10] (map entry_str ts)) \<le> CHUNK_THRESHOLD \<Longrightarrow>
   split en ts log = Some ([whole_chunk ts], log)"
  by (simp add: split_def)


lemma length_entry_str: "length (entry_str e) = 11 + length (entry_text e)"
  by (simp add: entry_str_def strftime_HMS_def two_digits_def ascii_def)

lemma collect_window_take:
  "collect_window es acc len = (w, l) \<Longrightarrow>
   \<exists>k\<le>length es. w = acc @ take k es
      \<and> l = len + sum_list (map (\<lambda>e. length (entry_str e) + 1) (take k es))"
proof (induction es arbitrary: acc len)
  case Nil
  then show ?case by simp
next
  case (Cons e es)
  show ?case
  proof (cases "BOUNDARY_DETECTION_MAX < len + length (entry_str e)")
    case True
    with Cons.prems have "w = acc" "l = len" by simp_all
    hence "w = acc @ take 0 (e # es)
      \<and> l = len + sum_list (map (\<lambda>e. length (entry_str e) + 1) (take 0 (e # es)))" by simp
    thus ?thesis by blast
  next
    case False
    with Cons.prems
    have "collect_window es (acc @ [e]) (len + length (entry_str e) + 1) = (w, l)" by simp
    from Cons.IH [OF this] obtain k where k: "k \<le> length es" "w = (acc @ [e]) @ take k es"
      "l = len + length (entry_str e) + 1
          + sum_list (map (\<lambda>e. length (entry_str e) + 1) (take k es))" by blast
    hence "Suc k \<le> length (e # es) \<and> w = acc @ take (Suc k) (e # es)
      \<and> l = len + sum_list (map (\<lambda>e. length (entry_str e) + 1) (take (Suc k) (e # es)))"
      by simp
    thus ?thesis by blast
  qed
qed

lemma collect_window_two:
  assumes short: "\<forall>e\<in>set es. length (entry_str e) < 19999"
    and c: "collect_window es [] 0 = (w, l)" and big: "CHUNK_THRESHOLD \<le> l"
  shows "2 \<le> length w \<and> length w \<le> length es"
proof -
  from collect_window_take [OF c] obtain k where k: "k \<le> length es" "w = take k es"
    "l = sum_list (map (\<lambda>e. length (entry_str e) + 1) (take k es))" by auto
  have "\<not> k < 2"
  proof
    assume "k < 2"
    then consider "k = 0" | "k = 1" by linarith
    then show False
    proof cases
      case 1
      with k big show False by (simp add: CHUNK_THRESHOLD_def)
    next
      case 2
      with k(1) obtain e es' where es: "es = e # es'" by (cases es) auto
      with short have "length (entry_str e) < 19999" by simp
      with 2 k es big show False by (simp add: CHUNK_THRESHOLD_def)
    qed
  qed
  with k show ?thesis by simp
qed

lemma detect_step_cases:
  assumes "detect_step en ts ws log = Some (b, log')"
  obtains w l where "collect_window (drop ws ts) [] 0 = (w, l)" "w \<noteq> []" "CHUNK_THRESHOLD \<le> l"
    "log' = log @ [BOUNDARY_DETECTION_PROMPT_format (window_text ws w)]"
    "b = ws + length w div 2
     \<or> (\<exists>r. int b \<in> set (parse_boundaries (interp.truncate en) r (int ws) (int (ws + length w))))"
proof -
  obtain w l where c: "collect_window (drop ws ts) [] 0 = (w, l)"
    by (cases "collect_window (drop ws ts) [] 0")
  from assms c have w: "w \<noteq> []" and l: "CHUNK_THRESHOLD \<le> l"
    by (auto simp: detect_step_def Let_def split: if_splits)
  let ?P = "BOUNDARY_DETECTION_PROMPT_format (window_text ws w)"
  show thesis
  proof (cases "backend en log ?P")
    case (Inl e)
    with assms c w l have "b = ws + length w div 2" "log' = log @ [?P]"
      by (simp_all add: detect_step_def Let_def generate_def)
    with c w l that show ?thesis by blast
  next
    case (Inr r)
    show ?thesis
    proof (cases "parse_boundaries (interp.truncate en) r (int ws) (int (ws + length w))")
      case Nil
      with Inr assms c w l have "b = ws + length w div 2" "log' = log @ [?P]"
        by (simp_all add: detect_step_def Let_def generate_def)
      with c w l that show ?thesis by blast
    next
      case (Cons f fs)
      with Inr assms c w l have b: "b = nat f" and lg: "log' = log @ [?P]"
        by (simp_all add: detect_step_def Let_def generate_def)
      have "f \<in> set (parse_boundaries (interp.truncate en) r (int ws) (int (ws + length w)))"
        using Cons by simp
      moreover from this have "int ws < f" using parse_boundaries_range by blast
      ultimately have "int b \<in> set (parse_boundaries (interp.truncate en) r (int ws) (int (ws + length w)))"
        using b by simp
      with c w l lg that show ?thesis by blast
    qed
  qed
qed

lemma detect_step_progress:
  assumes short: "\<forall>e\<in>set ts. length (entry_str e) < 19999"
    and step: "detect_step en ts ws log = Some (b, log')"
  shows "ws < b \<and> b < length ts"
proof -
  from step obtain w l where c: "collect_window (drop ws ts) [] 0 = (w, l)"
    and big: "CHUNK_THRESHOLD \<le> l"
    and b: "b = ws + length w div 2
     \<or> (\<exists>r. int b \<in> set (parse_boundaries (interp.truncate en) r (int ws) (int (ws + length w))))"
    by (rule detect_step_cases)
  have "\<forall>e\<in>set (drop ws ts). length (entry_str e) < 19999"
    using short by (meson in_set_dropD)
  from collect_window_two [OF this c big]
  have two: "2 \<le> length w" and le: "length w \<le> length ts - ws" by simp_all
  from b show ?thesis
  proof
    assume "b = ws + length w div 2"
    with two le show ?thesis by linarith
  next
    assume "\<exists>r. int b \<in> set (parse_boundaries (interp.truncate en) r (int ws) (int (ws + length w)))"
    then obtain r where "int b \<in> set (parse_boundaries (interp.truncate en) r (int ws) (int (ws + length w)))" ..
    from parse_boundaries_range [OF this] le two show ?thesis by linarith
  qed
qed

lemma detect_loop_terminates:
  assumes short: "\<forall>e\<in>set ts. length (entry_str e) < 19999"
  shows "\<exists>r. detect_loop en ts ws bs log = Some r"
proof (induction "length ts - ws" arbitrary: ws bs log rule: less_induct)
  case less
  show ?case
  proof (cases "ws < length ts")
    case False
    thus ?thesis by (subst detect_loop.simps) simp
  next
    case True
    show ?thesis
    proof (cases "detect_step en ts ws log")
      case None
      with True show ?thesis by (subst detect_loop.simps) simp
    next
      case (Some p)
      obtain b log' where p: "p = (b, log')" by (cases p)
      from detect_step_progress [OF short Some [unfolded p]]
      have "ws < b" "b < length ts" by simp_all
      hence "length ts - b < length ts - ws" by linarith
      from less [OF this] obtain r where "detect_loop en ts b (bs @ [b]) log' = Some r" by blast
      with True Some p show ?thesis by (subst detect_loop.simps) simp
    qed
  qed
qed

lemma split_terminates:
  assumes "\<forall>e\<in>set ts. length (entry_str e) < 19999"
  shows "\<exists>r. split en ts log = Some r"
proof -
  from detect_loop_terminates [OF assms]
  obtain bs log' where "detect_boundaries en ts log = Some (bs, log')"
    unfolding detect_boundaries_def by (metis surj_pair)
  thus ?thesis by (simp add: split_def Let_def split: prod.splits)
qed

lemma collect_window_all:
  "len + sum_list (map (\<lambda>e. length (entry_str e) + 1) es) \<le> Suc BOUNDARY_DETECTION_MAX \<Longrightarrow>
   collect_window es acc len = (acc @ es, len + sum_list (map (\<lambda>e. length (entry_str e) + 1) es))"
  by (induction es arbitrary: acc len) (auto simp: add.assoc)

lemma length_sample_entry: "length (entry_str (sample_entry n)) = 11 + n"
  by (simp add: length_entry_str sample_entry_def)

lemma length_scenario_B: "length scenario_B = 25"
  by (simp add: scenario_B_def)

lemma length_join_nl:
  "length (join [c] xs) = sum_list (map (\<lambda>x. Suc (length x)) xs) - 1"
  by (induction "[c]" xs rule: join.induct) simp_all

lemma scenario_B_total: "length (join [10] (map entry_str scenario_B)) = 25000"
  by (simp add: length_join_nl scenario_B_def length_sample_entry comp_def sum_list_replicate)

lemma scenario_B_window: "collect_window (drop 0 scenario_B) [] 0 = (scenario_B, 25001)"
proof -
  have s: "sum_list (map (\<lambda>e. length (entry_str e) + 1) scenario_B) = 25001"
    by (simp add: scenario_B_def length_sample_entry sum_list_replicate)
  have "collect_window scenario_B [] 0
      = ([] @ scenario_B, 0 + sum_list (map (\<lambda>e. length (entry_str e) + 1) scenario_B))"
    using s by (intro collect_window_all) (simp add: BOUNDARY_DETECTION_MAX_def)
  thus ?thesis using s by simp
qed

lemma detect_step_midpoint:
  assumes "collect_window (drop ws ts) [] 0 = (w, l)" "w \<noteq> []" "CHUNK_THRESHOLD \<le> l"
    and "backend en log (BOUNDARY_DETECTION_PROMPT_format (window_text ws w)) = Inl e
       \<or> (\<exists>r. backend en log (BOUNDARY_DETECTION_PROMPT_format (window_text ws w)) = Inr r
            \<and> parse_boundaries (interp.truncate en) r (int ws) (int (ws + length w)) = [])"
  shows "detect_step en ts ws log
     = Some (ws + length w div 2, log @ [BOUNDARY_DETECTION_PROMPT_format (window_text ws w)])"
  using assms by (auto simp: detect_step_def Let_def generate_def)


lemma quiet_backend: "backend quiet_env log p = Inr nashi"
  by (simp add: quiet_env_def)


text \<open>The whole run of scenario B: one boundary, at 12, and two chunks of 12 and 13
  entries.\<close>

lemma scenario_B_second_window: "detect_step en scenario_B 12 log = None"
proof -
  have d: "drop 12 scenario_B = replicate 12 (sample_entry 988) @ [sample_entry 989]"
    by (simp add: scenario_B_def)
  have s: "sum_list (map (\<lambda>e. length (entry_str e) + 1) (drop 12 scenario_B)) = 13001"
    unfolding d by (simp add: length_sample_entry sum_list_replicate)
  have "collect_window (drop 12 scenario_B) [] 0
      = ([] @ drop 12 scenario_B,
         0 + sum_list (map (\<lambda>e. length (entry_str e) + 1) (drop 12 scenario_B)))"
    using s by (intro collect_window_all) (simp add: BOUNDARY_DETECTION_MAX_def)
  hence "collect_window (drop 12 scenario_B) [] 0 = (drop 12 scenario_B, 13001)"
    using s by simp
  thus ?thesis by (simp add: detect_step_def CHUNK_THRESHOLD_def)
qed

lemma scenario_B_boundaries:
  "detect_boundaries quiet_env scenario_B []
     = Some ([12], [BOUNDARY_DETECTION_PROMPT_format (window_text 0 scenario_B)])"
proof -
  have ne: "scenario_B \<noteq> []" by (simp add: scenario_B_def)
  have th: "CHUNK_THRESHOLD \<le> 25001" by (simp add: CHUNK_THRESHOLD_def)
  have st: "detect_step quiet_env scenario_B 0 []
       = Some (12, [BOUNDARY_DETECTION_PROMPT_format (window_text 0 scenario_B)])"
    using detect_step_midpoint [OF scenario_B_window ne th, of quiet_env "[]"]
      quiet_backend parse_nashi length_scenario_B by simp
  show ?thesis
    unfolding detect_boundaries_def
    apply (subst detect_loop.simps)
    apply (simp add: length_scenario_B st)
    apply (subst detect_loop.simps)
    apply (simp add: length_scenario_B scenario_B_second_window)
    done
qed

lemma scenario_B_split:
  "map (\<lambda>c. (length (entries c), start_index c, end_index c))
       (fst (the (split quiet_env scenario_B []))) = [(12, 0, 11), (13, 12, 24)]"
  by (simp add: split_def scenario_B_total CHUNK_THRESHOLD_def scenario_B_boundaries
      length_scenario_B) (simp add: scenario_B_def)

text \<open>A window of a single entry never moves: its midpoint is its start.\<close>

lemma long_entry_step:
  "detect_step en [sample_entry 19989, sample_entry 19989] 0 log
     = Some (0, log @ [BOUNDARY_DETECTION_PROMPT_format (window_text 0 [sample_entry 19989])])"
proof -
  have c: "collect_window (drop 0 [sample_entry 19989, sample_entry 19989]) [] 0
      = ([sample_entry 19989], 20001)"
    by (simp add: length_sample_entry BOUNDARY_DETECTION_MAX_def)
  have e: "parse_boundaries (interp.truncate en) r (int 0) (int (0 + length [sample_entry 19989])) = []" for r
  proof (cases "parse_boundaries (interp.truncate en) r (int 0) (int (0 + length [sample_entry 19989]))")
    case Nil thus ?thesis .
  next
    case (Cons f fs)
    hence "f \<in> set (parse_boundaries (interp.truncate en) r (int 0) (int (0 + length [sample_entry 19989])))"
      by simp
    from parse_boundaries_range [OF this] have "0 < f \<and> f < 1" by simp
    thus ?thesis by linarith
  qed
  have "\<exists>el. backend en log (BOUNDARY_DETECTION_PROMPT_format (window_text 0 [sample_entry 19989])) = Inl el
       \<or> (\<exists>r. backend en log (BOUNDARY_DETECTION_PROMPT_format (window_text 0 [sample_entry 19989])) = Inr r
            \<and> parse_boundaries (interp.truncate en) r (int 0) (int (0 + length [sample_entry 19989])) = [])"
    using e by (cases "backend en log (BOUNDARY_DETECTION_PROMPT_format (window_text 0 [sample_entry 19989]))") auto
  then obtain el where "backend en log (BOUNDARY_DETECTION_PROMPT_format (window_text 0 [sample_entry 19989])) = Inl el
       \<or> (\<exists>r. backend en log (BOUNDARY_DETECTION_PROMPT_format (window_text 0 [sample_entry 19989])) = Inr r
            \<and> parse_boundaries (interp.truncate en) r (int 0) (int (0 + length [sample_entry 19989])) = [])" ..
  from detect_step_midpoint [OF c _ _ this] show ?thesis by (simp add: CHUNK_THRESHOLD_def)
qed

lemma long_entry_loop:
  assumes "detect_loop en ts ws bs log = Some y"
  shows "\<not> (ts = [sample_entry 19989, sample_entry 19989] \<and> ws = 0)"
proof (rule detect_loop.raw_induct
    [where P = "\<lambda>en ts ws bs log y. \<not> (ts = [sample_entry 19989, sample_entry 19989] \<and> ws = 0)",
      OF _ assms])
  fix f :: "'a env_scheme \<Rightarrow> transcript_entry list \<Rightarrow> nat \<Rightarrow> nat list \<Rightarrow> ustr list
      \<Rightarrow> (nat list \<times> ustr list) option"
    and en :: "'a env_scheme" and ts ws bs log y
  assume IH: "\<And>(en :: 'a env_scheme) ts ws bs log y. f en ts ws bs log = Some y \<Longrightarrow>
      \<not> (ts = [sample_entry 19989, sample_entry 19989] \<and> ws = 0)"
  assume body: "(if ws < length ts
      then case detect_step en ts ws log of
           None \<Rightarrow> Some (bs, log)
           | Some (b, log') \<Rightarrow> f en ts b (bs @ [b]) log'
      else Some (bs, log)) = Some y"
  show "\<not> (ts = [sample_entry 19989, sample_entry 19989] \<and> ws = 0)"
  proof
    assume a: "ts = [sample_entry 19989, sample_entry 19989] \<and> ws = 0"
    with body long_entry_step [of en log]
    have "f en ts 0 (bs @ [0])
        (log @ [BOUNDARY_DETECTION_PROMPT_format (window_text 0 [sample_entry 19989])]) = Some y"
      by simp
    from IH [OF this] a show False by simp
  qed
qed

lemma split_diverges:
  "length (join [10] (map entry_str [sample_entry 19989, sample_entry 19989])) = 40001
   \<and> split en [sample_entry 19989, sample_entry 19989] log = None"
proof -
  have "detect_boundaries en [sample_entry 19989, sample_entry 19989] log = None"
  proof (cases "detect_boundaries en [sample_entry 19989, sample_entry 19989] log")
    case None thus ?thesis .
  next
    case (Some y)
    with long_entry_loop [of en "[sample_entry 19989, sample_entry 19989]" 0 "[]" log y]
    show ?thesis by (simp add: detect_boundaries_def)
  qed
  thus ?thesis by (simp add: split_def length_sample_entry CHUNK_THRESHOLD_def)
qed

text \<open>
  Claim C4 (as amended). Whenever \<^verbatim>\<open>split\<close> returns, the entries of the returned chunks,
  concatenated in order, are exactly the transcript. It returns for every backend when
  every entry is rendered in fewer than 19,999 characters. For a non-empty transcript
  whose rendered length is at most \<open>CHUNK_THRESHOLD\<close> the result is the single chunk
  holding the whole transcript, and nothing is sent to the backend.
\<close>

theorem split_partition:
  "(split en ts log = Some (chunks, log') \<longrightarrow> concat (map entries chunks) = ts)
   \<and> ((\<forall>e\<in>set ts. length (entry_str e) < 19999) \<longrightarrow> (\<exists>r. split en ts log = Some r))
   \<and> (ts \<noteq> [] \<longrightarrow> length (join [10] (map entry_str ts)) \<le> CHUNK_THRESHOLD \<longrightarrow>
        CHUNK_THRESHOLD = 20000 \<and> split en ts log = Some ([whole_chunk ts], log))"
proof (intro conjI impI)
  assume "split en ts log = Some (chunks, log')"
  thus "concat (map entries chunks) = ts" by (rule split_concat)
next
  assume "\<forall>e\<in>set ts. length (entry_str e) < 19999"
  thus "\<exists>r. split en ts log = Some r" by (rule split_terminates)
next
  show "CHUNK_THRESHOLD = 20000" by (simp add: CHUNK_THRESHOLD_def)
next
  assume "ts \<noteq> []" "length (join [10] (map entry_str ts)) \<le> CHUNK_THRESHOLD"
  thus "split en ts log = Some ([whole_chunk ts], log)" by (rule split_small)
qed

theorem split_partition_witness:
  "split quiet_env scenario_B [] \<noteq> None
   \<and> concat (map entries (fst (the (split quiet_env scenario_B [])))) = scenario_B
   \<and> [sample_entry 5] \<noteq> []
   \<and> length (join [10] (map entry_str [sample_entry 5])) \<le> CHUNK_THRESHOLD
   \<and> split quiet_env [sample_entry 5] [] = Some ([whole_chunk [sample_entry 5]], [])"
proof -
  have short: "\<forall>e\<in>set scenario_B. length (entry_str e) < 19999"
    by (auto simp: scenario_B_def length_sample_entry)
  from split_partition [of quiet_env scenario_B "[]"] short
  obtain r where r: "split quiet_env scenario_B [] = Some r" by blast
  obtain cs lg where p: "r = (cs, lg)" by (cases r)
  from split_partition [of quiet_env scenario_B "[]" cs lg] r p
  have c: "concat (map entries cs) = scenario_B" by blast
  have small: "length (join [10] (map entry_str [sample_entry 5])) \<le> CHUNK_THRESHOLD"
    by (simp add: length_sample_entry CHUNK_THRESHOLD_def)
  from split_partition [of quiet_env "[sample_entry 5]" "[]"] small
  have s: "split quiet_env [sample_entry 5] [] = Some ([whole_chunk [sample_entry 5]], [])"
    by blast
  from r p c small s show ?thesis by simp
qed

text \<open>The claim as stated promises a single chunk for every transcript within the
  threshold; the empty transcript is within the threshold and gives no chunk.\<close>

theorem split_single_chunk_counterexample:
  "length (join [10] (map entry_str [])) \<le> CHUNK_THRESHOLD
   \<and> split quiet_env [] [] = Some ([], [])
   \<and> length (fst (the (split quiet_env [] []))) \<noteq> 1"
  by (simp add: split_def)

section \<open>Properties of the minutes updater\<close>

lemma update_nonempty_full:
  assumes "ts \<noteq> []" "full \<or> update_count u = 0"
  shows "update en clk u ts full log files =
     (let u1 = u\<lparr> update_count := update_count u + 1 \<rparr>;
          p = full_prompt (template_of u) (get_default_context clk (update_count u + 1)) ts
      in case backend en log p of
           Inl e \<Rightarrow> (fst (failed u1 ts e), snd (failed u1 ts e), log @ [p], files)
         | Inr doc \<Rightarrow>
             (case commit en (u1\<lparr> current_minutes := doc \<rparr>) ts (length ts) files of
                (res, u2, files') \<Rightarrow> (res, u2, log @ [p], files')))"
  using assms
  by (auto simp: update_def Let_def generate_full_def generate_def split: sum.splits)

lemma update_nonempty_incremental:
  assumes "ts \<noteq> []" "\<not> full" "update_count u \<noteq> 0" "drop (last_update_index u) ts \<noteq> []"
  shows "update en clk u ts full log files =
     (let u1 = u\<lparr> update_count := update_count u + 1 \<rparr>;
          p = incremental_prompt (current_minutes u) (drop (last_update_index u) ts)
      in case backend en log p of
           Inl e \<Rightarrow> (fst (failed u1 ts e), snd (failed u1 ts e), log @ [p], files)
         | Inr doc \<Rightarrow>
             (case commit en (u1\<lparr> current_minutes := doc \<rparr>) ts
                     (length (drop (last_update_index u) ts)) files of
                (res, u2, files') \<Rightarrow> (res, u2, log @ [p], files')))"
  using assms
  by (auto simp: update_def Let_def generate_incremental_def generate_def
      get_new_transcripts_def split: sum.splits)

lemma update_noop:
  assumes "ts \<noteq> []" "update_count u \<noteq> 0" "drop (last_update_index u) ts = []"
  shows "update en clk u ts False log files =
     (\<lparr> success = True, minutes = current_minutes u, new_entries_count = 0,
        total_entries_count = length ts, update_number = update_count u, error = None \<rparr>,
      u, log, files)"
  using assms
  by (simp add: update_def Let_def get_new_transcripts_def)

lemma failed_restores:
  "failed (u\<lparr> update_count := update_count u + 1 \<rparr>) ts e =
     (\<lparr> success = False, minutes = current_minutes u, new_entries_count = 0,
        total_entries_count = length ts, update_number = update_count u, error = Some e \<rparr>, u)"
  by (simp add: failed_def Let_def)

text \<open>
  Claim C1. Let the snapshot be non-empty and let the call of \<^verbatim>\<open>update\<close> send a prompt to
  the backend (the one call it makes, \<open>log' = log @ [p]\<close>) which raises with message \<open>e\<close>.
  Then the result has \<open>success = False\<close> and carries \<open>e\<close>, its document is the previous
  one, and the session is exactly as before the call: document, index and update count
  are unchanged, and no file has been written.
\<close>

theorem update_generation_failure:
  assumes ne: "ts \<noteq> []" and up: "update en clk u ts full log files = (res, u', log', files')"
    and lg: "log' = log @ [p]" and bk: "backend en log p = Inl e"
  shows "res = \<lparr> success = False, minutes = current_minutes u, new_entries_count = 0,
        total_entries_count = length ts, update_number = update_count u, error = Some e \<rparr>
     \<and> u' = u \<and> files' = files"
proof (cases "full \<or> update_count u = 0")
  case True
  let ?p = "full_prompt (template_of u) (get_default_context clk (update_count u + 1)) ts"
  show ?thesis
  proof (cases "backend en log ?p")
    case (Inl e')
    with update_nonempty_full [OF ne True, of en clk log files] up lg bk
    show ?thesis by (simp add: Let_def failed_restores)
  next
    case (Inr doc)
    with update_nonempty_full [OF ne True, of en clk log files] up
    have "log' = log @ [?p]" by (auto simp: Let_def split: prod.splits)
    with lg bk Inr show ?thesis by simp
  qed
next
  case False
  hence nf: "\<not> full" and nz: "update_count u \<noteq> 0" by simp_all
  show ?thesis
  proof (cases "drop (last_update_index u) ts = []")
    case True
    with update_noop [OF ne nz True, of en clk log files] up nf lg show ?thesis by simp
  next
    case new: False
    let ?p = "incremental_prompt (current_minutes u) (drop (last_update_index u) ts)"
    show ?thesis
    proof (cases "backend en log ?p")
      case (Inl e')
      with update_nonempty_incremental [OF ne nf nz new, of en clk log files] up lg bk
      show ?thesis by (simp add: Let_def failed_restores)
    next
      case (Inr doc)
      with update_nonempty_incremental [OF ne nf nz new, of en clk log files] up
      have "log' = log @ [?p]" by (auto simp: Let_def split: prod.splits)
      with lg bk Inr show ?thesis by simp
    qed
  qed
qed

lemma commit_plain:
  "\<not> (version_history u \<and> \<not> simple_mode u) \<Longrightarrow>
   commit en u ts n files =
     (\<lparr> success = True, minutes = current_minutes u, new_entries_count = n,
        total_entries_count = length ts, update_number = update_count u, error = None \<rparr>,
      u\<lparr> last_update_index := length ts \<rparr>, files)"
  by (auto simp: commit_def Let_def)



theorem update_generation_failure_witness:
  "[sample_entry 1, sample_entry 2] \<noteq> []
   \<and> update failing_env noon settled [sample_entry 1, sample_entry 2] False [] []
       = (\<lparr> success = False, minutes = ascii ''# notes'', new_entries_count = 0,
            total_entries_count = 2, update_number = 1, error = Some (ascii ''timeout'') \<rparr>,
          settled, [incremental_prompt (ascii ''# notes'') [sample_entry 2]], [])
   \<and> backend failing_env [] (incremental_prompt (ascii ''# notes'') [sample_entry 2])
       = Inl (ascii ''timeout'')"
proof -
  let ?ts = "[sample_entry 1, sample_entry 2]"
  let ?p = "incremental_prompt (ascii ''# notes'') [sample_entry 2]"
  have ne: "?ts \<noteq> []" by simp
  have bk: "backend failing_env [] ?p = Inl (ascii ''timeout'')"
    by (simp add: failing_env_def quiet_env_def)
  obtain res u' log' files' where
    up: "update failing_env noon settled ?ts False [] [] = (res, u', log', files')"
    by (metis surj_pair)
  have "update failing_env noon settled ?ts False [] [] =
     (let u1 = settled\<lparr> update_count := update_count settled + 1 \<rparr>;
          p = incremental_prompt (current_minutes settled) (drop (last_update_index settled) ?ts)
      in case backend failing_env [] p of
           Inl e \<Rightarrow> (fst (failed u1 ?ts e), snd (failed u1 ?ts e), [] @ [p], [])
         | Inr doc \<Rightarrow>
             (case commit failing_env (u1\<lparr> current_minutes := doc \<rparr>) ?ts
                     (length (drop (last_update_index settled) ?ts)) [] of
                (res, u2, files') \<Rightarrow> (res, u2, [] @ [p], files')))"
    by (rule update_nonempty_incremental) (simp_all add: settled_def)
  hence lg: "log' = [] @ [?p]"
    using up by (simp add: Let_def settled_def failing_env_def quiet_env_def)
  from update_generation_failure [OF ne up lg bk] up lg bk
  show ?thesis by (simp add: settled_def)
qed







end
